theory Spec2Isabelle
  imports Main "HOL-Library.Word" "HOL-Library.AList" "HOL-Library.Sublist"
begin

section \<open>Python values and strings\<close>

text \<open>
  A Python \<open>str\<close> is modelled as a \<open>string\<close>, each \<open>char\<close> standing for one code
  point below 256. The values \<open>json.loads\<close> produces (and the values kept in a metadata
  bag) are the trees of type \<open>json\<close>; a \<open>dict\<close> is an association list with distinct keys,
  in insertion order. A float is kept as its 64 IEEE bits, which is all its truth value
  needs.
\<close>

datatype json =
    JNull
  | JBool bool
  | JInt int
  | JFloat "64 word"
  | JStr string
  | JArr "json list"
  | JObj "(string \<times> json) list"

text \<open>Python's truth value of an object (\<open>bool(x)\<close>, as used by \<open>or\<close> and \<open>not\<close>).\<close>

fun truthy :: "json \<Rightarrow> bool" where
  "truthy JNull = False"
| "truthy (JBool b) = b"
| "truthy (JInt i) = (i \<noteq> 0)"
| "truthy (JFloat w) = (w \<noteq> 0 \<and> w \<noteq> 0x8000000000000000)"
| "truthy (JStr s) = (s \<noteq> [])"
| "truthy (JArr xs) = (xs \<noteq> [])"
| "truthy (JObj kvs) = (kvs \<noteq> [])"

text \<open>
  \<open>x.get(key, default)\<close>: only a \<open>dict\<close> has the method; on every other value the
  attribute lookup raises \<open>AttributeError\<close>, which is \<open>None\<close> here.
\<close>

fun dict_get :: "json \<Rightarrow> string \<Rightarrow> json \<Rightarrow> json option" where
  "dict_get (JObj kvs) k d = Some (case map_of kvs k of Some v \<Rightarrow> v | None \<Rightarrow> d)"
| "dict_get _ k d = None"

text \<open>
  \<open>str.isspace\<close> on one character: the code points below 256 that \<open>str.strip()\<close>
  removes.
\<close>

definition py_isspace :: "char \<Rightarrow> bool" where
  "py_isspace c \<longleftrightarrow>
     c \<in> {CHR 0x09, CHR 0x0A, CHR 0x0B, CHR 0x0C, CHR 0x0D, CHR 0x1C, CHR 0x1D, CHR 0x1E,
          CHR 0x1F, CHR 0x20, CHR 0x85, CHR 0xA0}"

definition py_strip :: "string \<Rightarrow> string" where
  "py_strip s = rev (dropWhile py_isspace (rev (dropWhile py_isspace s)))"

text \<open>
  \<open>s.split(sep)\<close> for a non-empty separator: the pieces between the non-overlapping
  occurrences of \<open>sep\<close>, scanned from the left; \<open>cur\<close> is the piece being collected.
\<close>

function split_from :: "string \<Rightarrow> string \<Rightarrow> string \<Rightarrow> string list" where
  "split_from sep cur [] = [cur]"
| "split_from sep cur (c # s) =
     (if sep \<noteq> [] \<and> take (length sep) (c # s) = sep
      then cur # split_from sep [] (drop (length sep - 1) s)
      else split_from sep (cur @ [c]) s)"
  by pat_completeness auto
termination
  by (relation "measure (\<lambda>(sep, cur, s). length s)") auto

datatype error =
    IndexError
  | ValueError
  | InvalidStateError
  | TypeError
  | RecursionError
  | CancelledError
  | SQLAlchemyError
  | ExceptionGroup "error list"
  | MuxingAdapterError string

definition py_split :: "string \<Rightarrow> string \<Rightarrow> error + string list" where
  "py_split s sep = (if sep = [] then Inl ValueError else Inr (split_from sep [] s))"

text \<open>\<open>xs[i]\<close> for a non-negative index: \<open>IndexError\<close> out of range.\<close>

definition py_index :: "'a list \<Rightarrow> nat \<Rightarrow> error + 'a" where
  "py_index xs i = (if i < length xs then Inr (xs ! i) else Inl IndexError)"

subsection \<open>Mutable objects\<close>

text \<open>
  The request body is a \<open>dict\<close> that the caller keeps, so it lives on a heap: a list of
  objects, an address being a position in it, and a new object being appended. A value is
  an immutable scalar or a reference to a \<open>dict\<close> or a \<open>list\<close>.
\<close>

datatype pyval = VNone | VBool bool | VInt int | VFloat "64 word" | VStr string | VRef nat

datatype pyobj = ODict "(string \<times> pyval) list" | OList "pyval list"

type_synonym heap = "pyobj list"

text \<open>
  \<open>copy.deepcopy\<close> on such values, without its memo: a scalar is returned as it is; for
  a \<open>dict\<close> or a \<open>list\<close> the empty copy is allocated first and filled with the copies of
  the items, in order. \<open>n\<close> bounds the nesting followed (the interpreter's recursion
  limit); \<open>None\<close> is the \<open>RecursionError\<close> beyond it, or a reference to no object.
\<close>

fun copy_all ::
  "(heap \<Rightarrow> pyval \<Rightarrow> (pyval \<times> heap) option) \<Rightarrow> heap \<Rightarrow> pyval list \<Rightarrow>
   (pyval list \<times> heap) option" where
  "copy_all f h [] = Some ([], h)"
| "copy_all f h (v # vs) =
     (case f h v of
        None \<Rightarrow> None
      | Some (v', h1) \<Rightarrow>
          (case copy_all f h1 vs of
             None \<Rightarrow> None
           | Some (vs', h2) \<Rightarrow> Some (v' # vs', h2)))"

primrec deepcopy :: "nat \<Rightarrow> heap \<Rightarrow> pyval \<Rightarrow> (pyval \<times> heap) option" where
  "deepcopy 0 = (\<lambda>h x. case x of VRef a \<Rightarrow> None | _ \<Rightarrow> Some (x, h))"
| "deepcopy (Suc n) = (\<lambda>h x.
     case x of
       VRef a \<Rightarrow>
         if a < length h then
           (case h ! a of
              ODict kvs \<Rightarrow>
                (case copy_all (deepcopy n) (h @ [ODict []]) (map snd kvs) of
                   None \<Rightarrow> None
                 | Some (vs', h') \<Rightarrow>
                     Some (VRef (length h), h'[length h := ODict (zip (map fst kvs) vs')]))
            | OList vs \<Rightarrow>
                (case copy_all (deepcopy n) (h @ [OList []]) vs of
                   None \<Rightarrow> None
                 | Some (vs', h') \<Rightarrow> Some (VRef (length h), h'[length h := OList vs'])))
         else None
     | _ \<Rightarrow> Some (x, h))"

text \<open>\<open>x[k] = v\<close> for a string key: only a \<open>dict\<close> takes it.\<close>

definition set_item :: "heap \<Rightarrow> pyval \<Rightarrow> string \<Rightarrow> pyval \<Rightarrow> error + heap" where
  "set_item h x k v =
     (case x of
        VRef a \<Rightarrow>
          if a < length h then
            (case h ! a of
               ODict kvs \<Rightarrow> Inr (h[a := ODict (AList.update k v kvs)])
             | OList vs \<Rightarrow> Inl TypeError)
          else Inl TypeError
      | _ \<Rightarrow> Inl TypeError)"

text \<open>
  The nesting under \<open>x\<close> is at most \<open>n\<close> deep and every reference in it is to an object
  of the heap: what a body parsed from JSON satisfies for some \<open>n\<close>.
\<close>

primrec bounded :: "nat \<Rightarrow> heap \<Rightarrow> pyval \<Rightarrow> bool" where
  "bounded 0 = (\<lambda>h x. case x of VRef a \<Rightarrow> False | _ \<Rightarrow> True)"
| "bounded (Suc n) = (\<lambda>h x.
     case x of
       VRef a \<Rightarrow>
         a < length h \<and>
         (case h ! a of
            ODict kvs \<Rightarrow> list_all (bounded n h) (map snd kvs)
          | OList vs \<Rightarrow> list_all (bounded n h) vs)
     | _ \<Rightarrow> True)"

text \<open>
  Every object reached from \<open>x\<close> in at most \<open>d\<close> steps is an object of the heap at an
  address from \<open>m\<close> on.
\<close>

primrec fresh_from :: "nat \<Rightarrow> nat \<Rightarrow> heap \<Rightarrow> pyval \<Rightarrow> bool" where
  "fresh_from m 0 = (\<lambda>h x. case x of VRef a \<Rightarrow> m \<le> a \<and> a < length h | _ \<Rightarrow> True)"
| "fresh_from m (Suc d) = (\<lambda>h x.
     case x of
       VRef a \<Rightarrow>
         m \<le> a \<and> a < length h \<and>
         (case h ! a of
            ODict kvs \<Rightarrow> list_all (fresh_from m d h) (map snd kvs)
          | OList vs \<Rightarrow> list_all (fresh_from m d h) vs)
     | _ \<Rightarrow> True)"

text \<open>
  The JSON value a heap value stands for, read down to \<open>n\<close> levels of nesting
  (\<open>None\<close> beyond them, or at a reference to no object): a \<open>dict\<close> is read key by key
  in its order, a \<open>list\<close> item by item.
\<close>

fun load_items :: "(pyval \<Rightarrow> json option) \<Rightarrow> (string \<times> pyval) list \<Rightarrow> (string \<times> json) list option" where
  "load_items f [] = Some []"
| "load_items f ((k, v) # kvs) =
     (case f v of
        None \<Rightarrow> None
      | Some j \<Rightarrow>
          (case load_items f kvs of
             None \<Rightarrow> None
           | Some js \<Rightarrow> Some ((k, j) # js)))"

fun load_elems :: "(pyval \<Rightarrow> json option) \<Rightarrow> pyval list \<Rightarrow> json list option" where
  "load_elems f [] = Some []"
| "load_elems f (v # vs) =
     (case f v of
        None \<Rightarrow> None
      | Some j \<Rightarrow>
          (case load_elems f vs of
             None \<Rightarrow> None
           | Some js \<Rightarrow> Some (j # js)))"

primrec load :: "nat \<Rightarrow> heap \<Rightarrow> pyval \<Rightarrow> json option" where
  "load 0 = (\<lambda>h x.
     case x of
       VNone \<Rightarrow> Some JNull
     | VBool b \<Rightarrow> Some (JBool b)
     | VInt i \<Rightarrow> Some (JInt i)
     | VFloat w \<Rightarrow> Some (JFloat w)
     | VStr s \<Rightarrow> Some (JStr s)
     | VRef a \<Rightarrow> None)"
| "load (Suc n) = (\<lambda>h x.
     case x of
       VNone \<Rightarrow> Some JNull
     | VBool b \<Rightarrow> Some (JBool b)
     | VInt i \<Rightarrow> Some (JInt i)
     | VFloat w \<Rightarrow> Some (JFloat w)
     | VStr s \<Rightarrow> Some (JStr s)
     | VRef a \<Rightarrow>
         if a < length h then
           (case h ! a of
              ODict kvs \<Rightarrow> map_option JObj (load_items (load n h) kvs)
            | OList vs \<Rightarrow> map_option JArr (load_elems (load n h) vs))
         else None)"

section \<open>The muxing adapter\<close>

subsection \<open>Routes and BodyAdapter\<close>

datatype ProviderType = ollama | openai | anthropic | llamacpp | openrouter

record ProviderEndpoint =
  endpoint :: string
  provider_type :: ProviderType

record ProviderModel =
  name :: string

record ModelRoute =
  route_model :: ProviderModel
  route_endpoint :: ProviderEndpoint

definition get_provider_formatted_url :: "ModelRoute \<Rightarrow> string" where
  "get_provider_formatted_url model_route =
     (if provider_type (route_endpoint model_route) \<in> set [openai, openrouter]
      then endpoint (route_endpoint model_route) @ ''/v1''
      else endpoint (route_endpoint model_route))"

text \<open>\<open>set_destination_info\<close>: the new body and the heap, or the exception raised.\<close>

definition set_destination_info ::
  "nat \<Rightarrow> ModelRoute \<Rightarrow> heap \<Rightarrow> pyval \<Rightarrow> error + pyval \<times> heap" where
  "set_destination_info n model_route h data =
     (case deepcopy n h data of
        None \<Rightarrow> Inl RecursionError
      | Some (new_data, h1) \<Rightarrow>
          (case set_item h1 new_data ''model'' (VStr (name (route_model model_route))) of
             Inl e \<Rightarrow> Inl e
           | Inr h2 \<Rightarrow>
               (case set_item h2 new_data ''base_url''
                       (VStr (get_provider_formatted_url model_route)) of
                  Inl e \<Rightarrow> Inl e
                | Inr h3 \<Rightarrow> Inr (new_data, h3))))"

subsection \<open>The canonical chunk\<close>

text \<open>
  The fields \<open>_format_antropic\<close> passes to litellm's \<open>ModelResponse\<close>,
  \<open>StreamingChoices\<close> and \<open>Delta\<close>. An absent value (\<open>None\<close>) is \<open>None\<close>.
\<close>

record Delta =
  content :: json
  role :: string

record StreamingChoices =
  finish_reason :: "string option"
  index :: int
  delta :: Delta
  logprobs :: "json option"

record ModelResponse =
  chunk_id :: string
  chunk_model :: string
  chunk_object :: string
  choices :: "StreamingChoices list"

text \<open>
  The libraries the formatters call are parameters. Each returns \<open>None\<close> where the
  library raises an exception:
  \<^item> \<open>json_loads\<close> is \<open>json.loads\<close>;
  \<^item> \<open>openai_dump\<close> is \<open>ModelResponse(**chunk_dict).model_dump_json(exclude_none=True,
    exclude_unset=True)\<close>;
  \<^item> \<open>ollama_dump\<close> is \<open>ChatResponse(**chunk_dict)\<close>, then
    \<open>OLlamaToModel.normalize_chunk\<close>, then \<open>model_dump_json\<close>;
  \<^item> \<open>model_dump_json\<close> builds the \<open>ModelResponse\<close> of the given fields and serializes it;
  \<^item> \<open>uuid4 k\<close> is the text of the identifier \<open>uuid.uuid4()\<close> draws while the \<open>k\<close>-th chunk
    of a stream is formatted.
\<close>

record libs =
  json_loads :: "string \<Rightarrow> json option"
  openai_dump :: "json \<Rightarrow> string option"
  ollama_dump :: "json \<Rightarrow> string option"
  model_dump_json :: "ModelResponse \<Rightarrow> string option"
  uuid4 :: "nat \<Rightarrow> string"

subsection \<open>StreamChunkFormatter\<close>

text \<open>
  In every formatter the body of the \<open>try\<close> block is a value of type \<open>string option\<close>,
  \<open>None\<close> when an exception was raised in it; the \<open>except Exception\<close> branch is the
  \<open>None\<close> case. What is evaluated before the \<open>try\<close> keeps its error.
\<close>

definition format_ollama :: "libs \<Rightarrow> nat \<Rightarrow> string \<Rightarrow> error + string" where
  "format_ollama L k chunk =
     Inr (case (case json_loads L chunk of
                  None \<Rightarrow> None
                | Some chunk_dict \<Rightarrow> ollama_dump L chunk_dict) of
            Some s \<Rightarrow> s
          | None \<Rightarrow> chunk)"

definition format_openai :: "libs \<Rightarrow> nat \<Rightarrow> string \<Rightarrow> error + string" where
  "format_openai L k chunk =
     (case py_split chunk ''data:'' of
        Inl e \<Rightarrow> Inl e
      | Inr parts \<Rightarrow>
          (case py_index parts 1 of
             Inl e \<Rightarrow> Inl e
           | Inr part \<Rightarrow>
               (let cleaned_chunk = py_strip part in
                Inr (case (case json_loads L cleaned_chunk of
                             None \<Rightarrow> None
                           | Some chunk_dict \<Rightarrow> openai_dump L chunk_dict) of
                       Some s \<Rightarrow> s
                     | None \<Rightarrow> cleaned_chunk))))"

text \<open>
  The \<open>ModelResponse(...)\<close> expression of \<open>_format_antropic\<close>, for a finish reason and a
  content.
\<close>

definition anthropic_chunk :: "libs \<Rightarrow> nat \<Rightarrow> string option \<Rightarrow> json \<Rightarrow> ModelResponse" where
  "anthropic_chunk L k fr msg_content =
     \<lparr>chunk_id = ''anthropic-chat-'' @ uuid4 L k,
      chunk_model = ''anthropic-muxed-model'',
      chunk_object = ''chat.completion.chunk'',
      choices =
        [\<lparr>finish_reason = fr,
          index = 0,
          delta = \<lparr>content = msg_content, role = ''assistant''\<rparr>,
          logprobs = None\<rparr>]\<rparr>"

text \<open>The \<open>try\<close> block of \<open>_format_antropic\<close>, given the cleaned chunk.\<close>

definition antropic_try :: "libs \<Rightarrow> nat \<Rightarrow> string \<Rightarrow> string option" where
  "antropic_try L k cleaned_chunk =
     (case json_loads L cleaned_chunk of
        None \<Rightarrow> None
      | Some chunk_dict \<Rightarrow>
          (case dict_get chunk_dict ''type'' (JStr []) of
             None \<Rightarrow> None
           | Some msg_type \<Rightarrow>
               (let fr = (if msg_type = JStr ''message_stop'' then Some ''stop'' else None)
                in case dict_get chunk_dict ''delta'' (JObj []) of
                     None \<Rightarrow> None
                   | Some d \<Rightarrow>
                       (case (if truthy d then Some d
                              else dict_get chunk_dict ''content_block'' (JObj [])) of
                          None \<Rightarrow> None
                        | Some msg_content_dict \<Rightarrow>
                            if \<not> truthy msg_content_dict then Some []
                            else
                              (case dict_get msg_content_dict ''text'' (JStr []) of
                                 None \<Rightarrow> None
                               | Some msg_content \<Rightarrow>
                                   model_dump_json L (anthropic_chunk L k fr msg_content))))))"

definition format_antropic :: "libs \<Rightarrow> nat \<Rightarrow> string \<Rightarrow> error + string" where
  "format_antropic L k chunk =
     (case py_split chunk ''data:'' of
        Inl e \<Rightarrow> Inl e
      | Inr parts \<Rightarrow>
          (case py_index parts 1 of
             Inl e \<Rightarrow> Inl e
           | Inr part \<Rightarrow>
               (let cleaned_chunk = py_strip part in
                Inr (case antropic_try L k cleaned_chunk of
                       Some s \<Rightarrow> s
                     | None \<Rightarrow> py_strip cleaned_chunk))))"

text \<open>The dispatch table built by \<open>__init__\<close>, and \<open>format\<close>.\<close>

definition provider_to_func ::
  "libs \<Rightarrow> (ProviderType \<times> (nat \<Rightarrow> string \<Rightarrow> error + string)) list" where
  "provider_to_func L =
     [(ollama, format_ollama L),
      (openai, format_openai L),
      (anthropic, format_antropic L),
      (llamacpp, format_openai L),
      (openrouter, format_openai L)]"

definition format_chunk :: "libs \<Rightarrow> nat \<Rightarrow> string \<Rightarrow> ProviderType \<Rightarrow> error + string" where
  "format_chunk L k chunk dest_prov =
     (case map_of (provider_to_func L) dest_prov of
        None \<Rightarrow> Inl (MuxingAdapterError ''Provider not supported.'')
      | Some format_func \<Rightarrow> format_func k chunk)"

subsection \<open>ResponseAdapter\<close>

definition format_as_openai_chunk :: "string \<Rightarrow> string" where
  "format_as_openai_chunk formatted_chunk = ''data:'' @ formatted_chunk @ [CHR 0x0A, CHR 0x0A]"

text \<open>
  The asynchronous generator \<open>_format_streaming_response\<close> over the chunks the upstream
  body yields, the first of them being the \<open>k\<close>-th of the stream: the frames it yields, and
  the exception that ended it, if one did.
\<close>

fun format_streaming_response ::
  "libs \<Rightarrow> ProviderType \<Rightarrow> nat \<Rightarrow> string list \<Rightarrow> string list \<times> error option" where
  "format_streaming_response L dest_prov k [] = ([], None)"
| "format_streaming_response L dest_prov k (chunk # rest) =
     (case format_chunk L k chunk dest_prov of
        Inl e \<Rightarrow> ([], Some e)
      | Inr openai_chunk \<Rightarrow>
          if openai_chunk = [] then format_streaming_response L dest_prov (Suc k) rest
          else (case format_streaming_response L dest_prov (Suc k) rest of
                  (frames, e) \<Rightarrow> (format_as_openai_chunk openai_chunk # frames, e)))"

section \<open>The recorder\<close>

subsection \<open>Rows, storage and the pipeline context\<close>

text \<open>
  The pydantic models of \<open>codegate.db.models\<close>, with the columns the \<open>INSERT\<close> statements
  name. A timestamp is kept as the text an f-string renders it to.
\<close>

record Prompt =
  p_id :: string
  p_timestamp :: string
  p_provider :: string
  p_request :: string
  p_type :: string

record Output =
  o_id :: string
  o_prompt_id :: string
  o_timestamp :: string
  o_output :: string

record Alert =
  a_id :: string
  a_prompt_id :: string
  a_code_snippet :: string
  a_trigger_string :: string
  a_trigger_type :: string
  a_trigger_category :: string
  a_timestamp :: string

record PipelineContext =
  input_request :: "Prompt option"
  output_responses :: "Output list"
  alerts_raised :: "Alert list"
  metadata :: "(string \<times> json) list"

text \<open>
  What one run of the \<open>async with self._async_db_engine.begin()\<close> block of
  \<open>_insert_pydantic_model\<close> comes to:
  \<^item> \<open>ConnectionRaised\<close>: opening the transaction on entry, or committing it on exit,
    raises. Both are outside the \<open>try\<close>, so the exception leaves the function;
  \<^item> \<open>Raised\<close>: \<open>conn.execute\<close>, \<open>result.first()\<close> or the rebuilding of the model from the
    returned row raises, inside the \<open>try\<close>;
  \<^item> \<open>NoRow\<close>: the statement returns no row;
  \<^item> \<open>Row r\<close>: the statement returns the stored row \<open>r\<close>.
\<close>

datatype 'm exec_result = ConnectionRaised | Raised | NoRow | Row 'm

text \<open>
  The collaborators of the recorder are parameters: the database, as the effect of each of
  the three \<open>INSERT ... RETURNING *\<close> statements on a state of type \<open>'db\<close>;
  \<open>json.dumps\<close> on a list of payloads; and \<open>fim_cache.could_store_fim_request\<close> on a cache
  of type \<open>'c\<close>.
\<close>

record ('db, 'c) deps =
  insert_prompt :: "'db \<Rightarrow> Prompt \<Rightarrow> Prompt exec_result \<times> 'db"
  insert_output :: "'db \<Rightarrow> Output \<Rightarrow> Output exec_result \<times> 'db"
  insert_alert :: "'db \<Rightarrow> Alert \<Rightarrow> Alert exec_result \<times> 'db"
  json_dumps :: "string list \<Rightarrow> string"
  could_store_fim_request :: "'c \<Rightarrow> PipelineContext \<Rightarrow> bool \<times> 'c"

text \<open>The process-wide state: the database, \<open>alert_queue\<close> and \<open>fim_cache\<close>.\<close>

record ('db, 'c) world =
  db :: 'db
  alert_queue :: "string list"
  fim_cache :: 'c

subsection \<open>DbRecorder\<close>

text \<open>
  \<open>_insert_pydantic_model\<close>: the value returned or the exception raised, and the
  database. The \<open>except Exception\<close> of the \<open>try\<close> turns \<open>Raised\<close> into \<open>None\<close>.
\<close>

definition insert_pydantic_model ::
  "('db \<Rightarrow> 'm \<Rightarrow> 'm exec_result \<times> 'db) \<Rightarrow> 'db \<Rightarrow> 'm \<Rightarrow> (error + 'm option) \<times> 'db" where
  "insert_pydantic_model sql_insert d model =
     (case sql_insert d model of
        (ConnectionRaised, d') \<Rightarrow> (Inl SQLAlchemyError, d')
      | (Raised, d') \<Rightarrow> (Inr None, d')
      | (NoRow, d') \<Rightarrow> (Inr None, d')
      | (Row r, d') \<Rightarrow> (Inr (Some r), d'))"

definition record_request ::
  "('db, 'c) deps \<Rightarrow> 'db \<Rightarrow> Prompt option \<Rightarrow> (error + Prompt option) \<times> 'db" where
  "record_request E d prompt_params =
     (case prompt_params of
        None \<Rightarrow> (Inr None, d)
      | Some p \<Rightarrow> insert_pydantic_model (insert_prompt E) d p)"

text \<open>The loop of \<open>record_outputs\<close> that appends each payload to \<open>full_outputs\<close>.\<close>

fun append_outputs :: "string list \<Rightarrow> Output list \<Rightarrow> string list" where
  "append_outputs full_outputs [] = full_outputs"
| "append_outputs full_outputs (output # rest) =
     append_outputs (full_outputs @ [o_output output]) rest"

definition record_outputs ::
  "('db, 'c) deps \<Rightarrow> 'db \<Rightarrow> Output list \<Rightarrow> (error + Output option) \<times> 'db" where
  "record_outputs E d outputs =
     (case outputs of
        [] \<Rightarrow> (Inr None, d)
      | first_output # _ \<Rightarrow>
          (let output_db = \<lparr>o_id = o_id first_output,
                            o_prompt_id = o_prompt_id first_output,
                            o_timestamp = o_timestamp first_output,
                            o_output = o_output first_output\<rparr>;
               full_outputs = append_outputs [] outputs;
               output_db = output_db\<lparr>o_output := json_dumps E full_outputs\<rparr>
           in insert_pydantic_model (insert_output E) d output_db))"

text \<open>
  The task group of \<open>record_alerts\<close>. \<open>create_task\<close> registers one insert per alert, in
  the order of the list; no task runs before the \<open>async with\<close> block is left, so
  \<open>create_task\<close> does not raise. A task is pending until its insert has run; the inserts
  run one at a time in an order the event loop picks, given here by \<open>sched\<close> (a list of
  task numbers; a number out of range or of a task no longer pending does nothing).
  Leaving the \<open>async with\<close> block waits for every task, so the tasks still pending then
  run. A task whose insert raises has failed, and \<open>asyncio.TaskGroup\<close> then cancels every
  task that is still pending: their inserts never run.
\<close>

datatype task = Pending Alert | Done "Alert option" | Failed error | Cancelled

definition cancel_pending :: "task \<Rightarrow> task" where
  "cancel_pending t = (case t of Pending alert \<Rightarrow> Cancelled | _ \<Rightarrow> t)"

definition run_task ::
  "('db, 'c) deps \<Rightarrow> nat \<Rightarrow> task list \<times> 'db \<Rightarrow> task list \<times> 'db" where
  "run_task E i st =
     (case st of (tasks, d) \<Rightarrow>
        if i < length tasks then
          (case tasks ! i of
             Pending alert \<Rightarrow>
               (case insert_pydantic_model (insert_alert E) d alert of
                  (Inr r, d') \<Rightarrow> (tasks[i := Done r], d')
                | (Inl e, d') \<Rightarrow> (map cancel_pending (tasks[i := Failed e]), d'))
           | _ \<Rightarrow> (tasks, d))
        else (tasks, d))"

definition task_group ::
  "('db, 'c) deps \<Rightarrow> nat list \<Rightarrow> Alert list \<Rightarrow> 'db \<Rightarrow> task list \<times> 'db" where
  "task_group E sched alerts d =
     fold (run_task E) (sched @ [0..<length alerts]) (map Pending alerts, d)"

text \<open>
  The exceptions of the failed tasks, which the task group raises as one
  \<open>ExceptionGroup\<close> when the block is left.
\<close>

fun task_errors :: "task list \<Rightarrow> error list" where
  "task_errors [] = []"
| "task_errors (Failed e # tasks) = e # task_errors tasks"
| "task_errors (t # tasks) = task_errors tasks"

text \<open>\<open>Task.result()\<close>: the value of a finished task, or the exception it re-raises.\<close>

definition task_result :: "task \<Rightarrow> error + Alert option" where
  "task_result t =
     (case t of
        Done r \<Rightarrow> Inr r
      | Pending alert \<Rightarrow> Inl InvalidStateError
      | Failed e \<Rightarrow> Inl e
      | Cancelled \<Rightarrow> Inl CancelledError)"

text \<open>The test \<open>alert_result and alert_result.trigger_category == "critical"\<close>.\<close>

definition is_critical :: "Alert option \<Rightarrow> bool" where
  "is_critical alert_result =
     (case alert_result of
        None \<Rightarrow> False
      | Some r \<Rightarrow> a_trigger_category r = ''critical'')"

text \<open>
  The second loop of \<open>record_alerts\<close>, over \<open>alerts_tasks\<close>. \<open>alert\<close> is the variable of
  the first loop, which the second loop reads but never assigns.
\<close>

fun notify_loop ::
  "Alert \<Rightarrow> task list \<Rightarrow> Alert option list \<Rightarrow> string list \<Rightarrow>
   (error + Alert option list) \<times> string list" where
  "notify_loop alert [] recorded_alerts q = (Inr recorded_alerts, q)"
| "notify_loop alert (alert_coro # rest) recorded_alerts q =
     (case task_result alert_coro of
        Inl e \<Rightarrow> (Inl e, q)
      | Inr alert_result \<Rightarrow>
          notify_loop alert rest (recorded_alerts @ [alert_result])
            (if is_critical alert_result
             then q @ [''New alert detected: '' @ a_timestamp alert]
             else q))"

text \<open>
  \<open>record_alerts\<close>: the value returned (\<open>None\<close> for an empty list) or the exception
  raised, the database and the queue. When a task has failed, the \<open>async with\<close> block
  raises and the second loop is not reached. After the first loop its variable \<open>alert\<close> is
  the last alert of the list.
\<close>

definition record_alerts ::
  "('db, 'c) deps \<Rightarrow> nat list \<Rightarrow> 'db \<Rightarrow> string list \<Rightarrow> Alert list \<Rightarrow>
   (error + Alert option list option) \<times> 'db \<times> string list" where
  "record_alerts E sched d q alerts =
     (if alerts = [] then (Inr None, d, q)
      else
        (case task_group E sched alerts d of
           (alerts_tasks, d') \<Rightarrow>
             (case task_errors alerts_tasks of
                e # es \<Rightarrow> (Inl (ExceptionGroup (e # es)), d', q)
              | [] \<Rightarrow>
                  (let alert = last alerts in
                   case notify_loop alert alerts_tasks [] q of
                     (Inl e, q') \<Rightarrow> (Inl e, d', q')
                   | (Inr recorded_alerts, q') \<Rightarrow> (Inr (Some recorded_alerts), d', q')))))"

definition should_record_context ::
  "('db, 'c) deps \<Rightarrow> 'c \<Rightarrow> PipelineContext option \<Rightarrow> bool \<times> 'c" where
  "should_record_context E cache context =
     (case context of
        None \<Rightarrow> (False, cache)
      | Some c \<Rightarrow>
          if truthy (case map_of (metadata c) ''stored_in_db'' of
                       Some v \<Rightarrow> v
                     | None \<Rightarrow> JBool False)
          then (False, cache)
          else
            (case input_request c of
               None \<Rightarrow> (False, cache)
             | Some request \<Rightarrow>
                 if p_type request \<noteq> ''fim'' then (True, cache)
                 else could_store_fim_request E cache c))"

text \<open>
  \<open>record_context\<close>, with the schedule of the alert inserts: the state and the context
  it leaves. An exception raised by a record step is caught by \<open>except Exception\<close>: the
  steps after it and the assignment of the flag are skipped. (The exceptions the steps
  raise are \<open>SQLAlchemyError\<close> and the \<open>ExceptionGroup\<close> of the task group, both of which
  that clause catches.)
\<close>

definition record_context ::
  "('db, 'c) deps \<Rightarrow> nat list \<Rightarrow> ('db, 'c) world \<Rightarrow> PipelineContext option \<Rightarrow>
   ('db, 'c) world \<times> PipelineContext option" where
  "record_context E sched w context =
     (case should_record_context E (fim_cache w) context of
        (False, cache') \<Rightarrow> (w\<lparr>fim_cache := cache'\<rparr>, context)
      | (True, cache') \<Rightarrow>
          (case context of
             None \<Rightarrow> (w\<lparr>fim_cache := cache'\<rparr>, context)
           | Some c \<Rightarrow>
               (case record_request E (db w) (input_request c) of
                  (Inl e, d1) \<Rightarrow> (w\<lparr>db := d1, fim_cache := cache'\<rparr>, context)
                | (Inr _, d1) \<Rightarrow>
                    (case record_outputs E d1 (output_responses c) of
                       (Inl e, d2) \<Rightarrow> (w\<lparr>db := d2, fim_cache := cache'\<rparr>, context)
                     | (Inr _, d2) \<Rightarrow>
                         (case record_alerts E sched d2 (alert_queue w) (alerts_raised c) of
                            (Inl e, d3, q') \<Rightarrow>
                              (w\<lparr>db := d3, alert_queue := q', fim_cache := cache'\<rparr>, context)
                          | (Inr _, d3, q') \<Rightarrow>
                              (w\<lparr>db := d3, alert_queue := q', fim_cache := cache'\<rparr>,
                               Some (c\<lparr>metadata :=
                                         AList.update ''stored_in_db'' (JBool True)
                                           (metadata c)\<rparr>)))))))"

subsection \<open>Notions used in the statements\<close>

text \<open>
  The row the recorder is to store for a list of fragments: identity, prompt identity
  and timestamp of the first fragment, and as payload the serialized list of all the
  payloads in arrival order.
\<close>

definition coalesced_output :: "('db, 'c) deps \<Rightarrow> Output \<Rightarrow> Output list \<Rightarrow> Output" where
  "coalesced_output E first_output outputs =
     \<lparr>o_id = o_id first_output,
      o_prompt_id = o_prompt_id first_output,
      o_timestamp = o_timestamp first_output,
      o_output = json_dumps E (map o_output outputs)\<rparr>"



section \<open>Sample collaborators and inputs\<close>

text \<open>
  Concrete collaborators for the evaluations below. \<open>sample_json_loads\<close> is
  \<open>json.loads\<close> on the listed texts and rejects every other text;
  \<open>sample_model_dump_json\<close> writes the set fields of a chunk whose content is a string.
\<close>

definition sample_json_loads :: "string \<Rightarrow> json option" where
  \<open>sample_json_loads s =
     (if s = ''{"type": "message_stop"}'' then Some (JObj [(''type'', JStr ''message_stop'')])
      else if s = ''{"type": "ping"}'' then Some (JObj [(''type'', JStr ''ping'')])
      else if s = ''{"type": "message_stop", "delta": {"stop_reason": "end_turn"}}''
        then Some (JObj [(''type'', JStr ''message_stop''),
                         (''delta'', JObj [(''stop_reason'', JStr ''end_turn'')])])
      else if s = ''{"type": "content_block_delta", "delta": {"text": "Hi"}}''
        then Some (JObj [(''type'', JStr ''content_block_delta''),
                         (''delta'', JObj [(''text'', JStr ''Hi'')])])
      else None)\<close>

definition sample_model_dump_json :: "ModelResponse \<Rightarrow> string option" where
  \<open>sample_model_dump_json r =
     (case choices r of
        [c] \<Rightarrow>
          (case content (delta c) of
             JStr t \<Rightarrow>
               Some (''{"id":"'' @ chunk_id r @ ''","choices":[{''
                     @ (case finish_reason c of
                          Some fr \<Rightarrow> ''"finish_reason":"'' @ fr @ ''",''
                        | None \<Rightarrow> [])
                     @ ''"index":0,"delta":{"content":"'' @ t @ ''","role":"''
                     @ role (delta c) @ ''"}}],"model":"'' @ chunk_model r
                     @ ''","object":"'' @ chunk_object r @ ''"}'')
           | _ \<Rightarrow> None)
      | _ \<Rightarrow> None)\<close>

definition sample_libs :: libs where
  "sample_libs =
     \<lparr>json_loads = sample_json_loads,
      openai_dump = (\<lambda>j. None),
      ollama_dump = (\<lambda>j. None),
      model_dump_json = sample_model_dump_json,
      uuid4 = (\<lambda>k. ''00000000-0000-4000-8000-000000000000'')\<rparr>"

text \<open>
  An in-memory database whose tables reject a second row with the same \<open>id\<close>, a
  \<open>json.dumps\<close> for lists of strings, and a cache that refuses a request text it has seen.
\<close>

record mem_db =
  db_prompts :: "Prompt list"
  db_outputs :: "Output list"
  db_alerts :: "Alert list"

definition sample_quote :: "string \<Rightarrow> string" where
  "sample_quote s =
     [CHR 0x22]
     @ concat (map (\<lambda>c. if c = CHR 0x22 \<or> c = CHR 0x5C then [CHR 0x5C, c] else [c]) s)
     @ [CHR 0x22]"

fun sample_join :: "string list \<Rightarrow> string" where
  "sample_join [] = []"
| "sample_join [x] = x"
| "sample_join (x # y # ys) = x @ '', '' @ sample_join (y # ys)"

definition sample_deps :: "(mem_db, string list) deps" where
  "sample_deps =
     \<lparr>insert_prompt = (\<lambda>d p.
        if p_id p \<in> set (map p_id (db_prompts d)) then (Raised, d)
        else (Row p, d\<lparr>db_prompts := db_prompts d @ [p]\<rparr>)),
      insert_output = (\<lambda>d x.
        if o_id x \<in> set (map o_id (db_outputs d)) then (Raised, d)
        else (Row x, d\<lparr>db_outputs := db_outputs d @ [x]\<rparr>)),
      insert_alert = (\<lambda>d a.
        if a_id a \<in> set (map a_id (db_alerts d)) then (Raised, d)
        else (Row a, d\<lparr>db_alerts := db_alerts d @ [a]\<rparr>)),
      json_dumps = (\<lambda>xs. ''['' @ sample_join (map sample_quote xs) @ '']''),
      could_store_fim_request = (\<lambda>cache c.
        case input_request c of
          None \<Rightarrow> (False, cache)
        | Some p \<Rightarrow> (p_request p \<notin> set cache, p_request p # cache))\<rparr>"

text \<open>
  The same database behind a connection that cannot be opened for the first \<open>n\<close> alert
  inserts (\<open>n\<close> is kept with the database).
\<close>

definition flaky_deps :: "(nat \<times> mem_db, string list) deps" where
  "flaky_deps =
     \<lparr>insert_prompt = (\<lambda>(n, d) p.
        case insert_prompt sample_deps d p of (r, d') \<Rightarrow> (r, (n, d'))),
      insert_output = (\<lambda>(n, d) x.
        case insert_output sample_deps d x of (r, d') \<Rightarrow> (r, (n, d'))),
      insert_alert = (\<lambda>(n, d) a.
        if 0 < n then (ConnectionRaised, (n - 1, d))
        else (case insert_alert sample_deps d a of (r, d') \<Rightarrow> (r, (n, d')))),
      json_dumps = json_dumps sample_deps,
      could_store_fim_request = could_store_fim_request sample_deps\<rparr>"

definition sample_alert :: "string \<Rightarrow> string \<Rightarrow> string \<Rightarrow> Alert" where
  "sample_alert i category ts =
     \<lparr>a_id = i, a_prompt_id = ''p1'', a_code_snippet = [], a_trigger_string = ''secret'',
      a_trigger_type = ''codegate-secrets'', a_trigger_category = category,
      a_timestamp = ts\<rparr>"

definition sample_output :: "string \<Rightarrow> string \<Rightarrow> string \<Rightarrow> Output" where
  "sample_output i ts payload =
     \<lparr>o_id = i, o_prompt_id = ''p1'', o_timestamp = ts, o_output = payload\<rparr>"

definition sample_prompt :: "string \<Rightarrow> string \<Rightarrow> Prompt" where
  "sample_prompt ty req =
     \<lparr>p_id = ''p1'', p_timestamp = ''t0'', p_provider = ''openai'', p_request = req,
      p_type = ty\<rparr>"

definition empty_db :: mem_db where
  "empty_db = \<lparr>db_prompts = [], db_outputs = [], db_alerts = []\<rparr>"

definition sample_context :: "string \<Rightarrow> PipelineContext" where
  "sample_context ty =
     \<lparr>input_request = Some (sample_prompt ty ''def f('' ),
      output_responses = [sample_output ''o1'' ''t1'' ''a'', sample_output ''o1'' ''t2'' ''b''],
      alerts_raised = [sample_alert ''a1'' ''critical'' ''t3''],
      metadata = []\<rparr>"

definition sample_world :: "string list \<Rightarrow> (mem_db, string list) world" where
  "sample_world cache = \<lparr>db = empty_db, alert_queue = [], fim_cache = cache\<rparr>"


text \<open>
  A heap holding the body \<open>{"model": "gpt", "messages": [{"role": "user", "content":
  "hi"}], "stream": true}\<close> at address 2, and a route.
\<close>

definition sample_heap :: heap where
  "sample_heap =
     [ODict [(''role'', VStr ''user''), (''content'', VStr ''hi'')],
      OList [VRef 0],
      ODict [(''model'', VStr ''gpt''), (''messages'', VRef 1), (''stream'', VBool True)]]"

definition sample_route :: "ProviderType \<Rightarrow> ModelRoute" where
  "sample_route p =
     \<lparr>route_model = \<lparr>name = ''m1''\<rparr>,
      route_endpoint = \<lparr>endpoint = ''http://x'', provider_type = p\<rparr>\<rparr>"

section \<open>Properties of the chunk formatters and the stream\<close>

subsection \<open>Strings\<close>

lemma split_from_no_d:
  "\<forall>c\<in>set s. c \<noteq> CHR ''d'' \<Longrightarrow> split_from ''data:'' cur s = [cur @ s]"
  by (induction s arbitrary: cur) auto

lemma split_from_data_prefix:
  "\<forall>c\<in>set s. c \<noteq> CHR ''d'' \<Longrightarrow> split_from ''data:'' [] (''data:'' @ s) = [[], s]"
  using split_from_no_d [of s "[]"] by simp

lemma py_strip_spaces: "\<forall>c\<in>set s. py_isspace c \<Longrightarrow> py_strip s = []"
proof -
  assume "\<forall>c\<in>set s. py_isspace c"
  then have d: "dropWhile py_isspace s = []"
    by (simp add: dropWhile_eq_Nil_conv)
  show ?thesis
    unfolding py_strip_def d by simp
qed

lemma py_isspace_not_d: "py_isspace c \<Longrightarrow> c \<noteq> CHR ''d''"
  by (auto simp: py_isspace_def)

subsection \<open>Dispatch\<close>

lemma format_chunk_eq:
  "format_chunk L k chunk p =
     (case p of
        ollama \<Rightarrow> format_ollama L k chunk
      | anthropic \<Rightarrow> format_antropic L k chunk
      | _ \<Rightarrow> format_openai L k chunk)"
  by (cases p) (simp_all add: format_chunk_def provider_to_func_def)

text \<open>
  \<open>format\<close> raises exactly for the formatters that index the second piece of the split,
  on a chunk in which \<open>data:\<close> does not occur, and what it raises is \<open>IndexError\<close>.
\<close>

lemma format_chunk_raises_iff:
  "(\<exists>e. format_chunk L k chunk p = Inl e) \<longleftrightarrow>
     p \<noteq> ollama \<and> length (split_from ''data:'' [] chunk) < 2"
  by (cases p)
    (auto simp: format_chunk_eq format_ollama_def format_openai_def format_antropic_def
      py_split_def py_index_def Let_def split: sum.splits)

lemma format_chunk_raises_IndexError:
  "format_chunk L k chunk p = Inl e \<Longrightarrow> e = IndexError"
  by (cases p)
    (auto simp: format_chunk_eq format_ollama_def format_openai_def format_antropic_def
      py_split_def py_index_def Let_def split: sum.splits if_splits)

text \<open>
  C1. The claim is that \<open>format\<close> never raises, for every supported provider type and every
  chunk, also for a chunk without the \<open>data:\<close> prefix. The code does raise there: on an
  SSE comment line or an \<open>event:\<close> line the OpenAI-compatible formatter (openai, llamacpp,
  openrouter) and the Anthropic formatter raise \<open>IndexError\<close>, since \<open>split("data:")[1]\<close>
  stands before the \<open>try\<close>, and the stream ends with that exception.
\<close>

theorem format_raises_without_data_prefix:
  "format_chunk L k '': OPENROUTER PROCESSING'' openrouter = Inl IndexError \<and>
   format_chunk L k '': OPENROUTER PROCESSING'' openai = Inl IndexError \<and>
   format_chunk L k '': OPENROUTER PROCESSING'' llamacpp = Inl IndexError \<and>
   format_chunk L k ''event: ping'' anthropic = Inl IndexError \<and>
   format_streaming_response L openrouter k ['': OPENROUTER PROCESSING'', ''data: {}''] =
     ([], Some IndexError)"
  by (simp add: format_chunk_eq format_openai_def format_antropic_def py_split_def
      py_index_def)

subsection \<open>The Anthropic formatter\<close>

lemma format_antropic_parsed:
  assumes "py_index (split_from ''data:'' [] chunk) 1 = Inr part"
  shows "format_antropic L k chunk =
     Inr (case antropic_try L k (py_strip part) of
            Some s \<Rightarrow> s
          | None \<Rightarrow> py_strip (py_strip part))"
  using assms by (simp add: format_antropic_def py_split_def Let_def)

text \<open>
  What the Anthropic formatter returns for a chunk that carries the \<open>data:\<close> prefix and
  whose cleaned text parses to a JSON object. If the type is \<open>message_stop\<close> and the
  content object (\<open>delta\<close>, or \<open>content_block\<close> when \<open>delta\<close> is absent or empty) is a
  non-empty object without a \<open>text\<close> field, the result is the serialized canonical chunk
  with finish reason \<open>stop\<close> and empty text, when the serializer returns one. If the
  object has neither a \<open>delta\<close> nor a \<open>content_block\<close> field the result is the empty
  string, whatever the type, and the stream yields no frame for the chunk.
\<close>

lemma format_antropic_stop_and_empty:
  assumes "py_index (split_from ''data:'' [] chunk) 1 = Inr part"
    and "json_loads L (py_strip part) = Some (JObj kvs)"
  shows
    "(map_of kvs ''type'' = Some (JStr ''message_stop'') \<and>
      (let d = (case map_of kvs ''delta'' of Some v \<Rightarrow> v | None \<Rightarrow> JObj []);
           b = (case map_of kvs ''content_block'' of Some v \<Rightarrow> v | None \<Rightarrow> JObj [])
       in (if truthy d then d else b) = JObj cs) \<and>
      cs \<noteq> [] \<and> map_of cs ''text'' = None \<and>
      model_dump_json L (anthropic_chunk L k (Some ''stop'') (JStr [])) = Some s \<longrightarrow>
        format_antropic L k chunk = Inr s) \<and>
     (map_of kvs ''delta'' = None \<and> map_of kvs ''content_block'' = None \<longrightarrow>
        format_antropic L k chunk = Inr [] \<and>
        format_streaming_response L anthropic k (chunk # rest) =
          format_streaming_response L anthropic (Suc k) rest)"
proof (intro conjI impI)
  assume a: "map_of kvs ''type'' = Some (JStr ''message_stop'') \<and>
      (let d = (case map_of kvs ''delta'' of Some v \<Rightarrow> v | None \<Rightarrow> JObj []);
           b = (case map_of kvs ''content_block'' of Some v \<Rightarrow> v | None \<Rightarrow> JObj [])
       in (if truthy d then d else b) = JObj cs) \<and>
      cs \<noteq> [] \<and> map_of cs ''text'' = None \<and>
      model_dump_json L (anthropic_chunk L k (Some ''stop'') (JStr [])) = Some s"
  then have "antropic_try L k (py_strip part) = Some s"
    using assms(2) by (auto simp: antropic_try_def Let_def split: if_splits)
  then show "format_antropic L k chunk = Inr s"
    by (simp add: format_antropic_parsed [OF assms(1)])
next
  assume "map_of kvs ''delta'' = None \<and> map_of kvs ''content_block'' = None"
  then have "antropic_try L k (py_strip part) = Some []"
    using assms(2) by (simp add: antropic_try_def Let_def)
  then show e: "format_antropic L k chunk = Inr []"
    by (simp add: format_antropic_parsed [OF assms(1)])
  then show "format_streaming_response L anthropic k (chunk # rest) =
          format_streaming_response L anthropic (Suc k) rest"
    by (simp add: format_chunk_eq)
qed

lemma sample_strip:
  \<open>py_strip '' {"type": "message_stop"}'' = ''{"type": "message_stop"}''\<close>
  \<open>py_strip '' {"type": "ping"}'' = ''{"type": "ping"}''\<close>
  \<open>py_strip '' {"type": "message_stop", "delta": {"stop_reason": "end_turn"}}'' =
     ''{"type": "message_stop", "delta": {"stop_reason": "end_turn"}}''\<close>
  by (simp_all add: py_strip_def py_isspace_def)

lemma sample_split:
  \<open>split_from ''data:'' [] ''data: {"type": "message_stop"}'' =
     [[], '' {"type": "message_stop"}'']\<close>
  \<open>split_from ''data:'' [] ''data: {"type": "ping"}'' = [[], '' {"type": "ping"}'']\<close>
  \<open>split_from ''data:'' []
      ''data: {"type": "message_stop", "delta": {"stop_reason": "end_turn"}}'' =
     [[], '' {"type": "message_stop", "delta": {"stop_reason": "end_turn"}}'']\<close>
  by simp_all

lemma format_antropic_stop_and_empty_sample:
  \<open>format_antropic sample_libs 0
      ''data: {"type": "message_stop", "delta": {"stop_reason": "end_turn"}}'' =
     Inr (''{"id":"anthropic-chat-00000000-0000-4000-8000-000000000000","choices":[{''
          @ ''"finish_reason":"stop","index":0,"delta":{"content":"","role":"assistant"}}],''
          @ ''"model":"anthropic-muxed-model","object":"chat.completion.chunk"}'') \<and>
   format_antropic sample_libs 0 ''data: {"type": "ping"}'' = Inr [] \<and>
   format_streaming_response sample_libs anthropic 0 [''data: {"type": "ping"}''] = ([], None)\<close>
proof -
  let ?stop = \<open>''data: {"type": "message_stop", "delta": {"stop_reason": "end_turn"}}''\<close>
  let ?stop_part = \<open>'' {"type": "message_stop", "delta": {"stop_reason": "end_turn"}}''\<close>
  let ?stop_kvs = "[(''type'', JStr ''message_stop''),
                    (''delta'', JObj [(''stop_reason'', JStr ''end_turn'')])]"
  let ?ping = \<open>''data: {"type": "ping"}''\<close>
  let ?ping_part = \<open>'' {"type": "ping"}''\<close>
  let ?s = \<open>''{"id":"anthropic-chat-00000000-0000-4000-8000-000000000000","choices":[{''
          @ ''"finish_reason":"stop","index":0,"delta":{"content":"","role":"assistant"}}],''
          @ ''"model":"anthropic-muxed-model","object":"chat.completion.chunk"}''\<close>
  have 1: "py_index (split_from ''data:'' [] ?stop) 1 = Inr ?stop_part"
    unfolding sample_split by (simp add: py_index_def)
  have 2: "json_loads sample_libs (py_strip ?stop_part) = Some (JObj ?stop_kvs)"
    unfolding sample_strip by (simp add: sample_libs_def sample_json_loads_def)
  have 3: "map_of ?stop_kvs ''type'' = Some (JStr ''message_stop'') \<and>
      (let d = (case map_of ?stop_kvs ''delta'' of Some v \<Rightarrow> v | None \<Rightarrow> JObj []);
           b = (case map_of ?stop_kvs ''content_block'' of Some v \<Rightarrow> v | None \<Rightarrow> JObj [])
       in (if truthy d then d else b) = JObj [(''stop_reason'', JStr ''end_turn'')]) \<and>
      [(''stop_reason'', JStr ''end_turn'')] \<noteq> [] \<and>
      map_of [(''stop_reason'', JStr ''end_turn'')] ''text'' = None \<and>
      model_dump_json sample_libs (anthropic_chunk sample_libs 0 (Some ''stop'') (JStr [])) =
        Some ?s"
    by (simp add: sample_libs_def sample_model_dump_json_def anthropic_chunk_def)
  have a: "format_antropic sample_libs 0 ?stop = Inr ?s"
    using format_antropic_stop_and_empty
      [OF 1 2, where cs = "[(''stop_reason'', JStr ''end_turn'')]" and k = 0 and s = ?s] 3
    by blast
  have 4: "py_index (split_from ''data:'' [] ?ping) 1 = Inr ?ping_part"
    unfolding sample_split by (simp add: py_index_def)
  have 5: "json_loads sample_libs (py_strip ?ping_part) = Some (JObj [(''type'', JStr ''ping'')])"
    unfolding sample_strip by (simp add: sample_libs_def sample_json_loads_def)
  have 6: "map_of [(''type'', JStr ''ping'')] ''delta'' = None \<and>
      map_of [(''type'', JStr ''ping'')] ''content_block'' = None"
    by simp
  have b: "format_antropic sample_libs 0 ?ping = Inr [] \<and>
      format_streaming_response sample_libs anthropic 0 [?ping] =
        format_streaming_response sample_libs anthropic (Suc 0) []"
    using format_antropic_stop_and_empty [OF 4 5, where k = 0 and rest = "[]"] 6 by blast
  from a b show ?thesis
    by simp
qed

text \<open>
  C5 is not met by the code. The chunk \<open>data: {"type": "message_stop"}\<close>, which is how
  Anthropic ends a stream, has the type \<open>message_stop\<close> and no content. The formatter
  computes the finish reason \<open>stop\<close> for it and then returns the empty string at the guard
  on the missing content object, before the canonical chunk is built: the result is not
  the chunk with finish reason \<open>stop\<close> (whose serialization is not empty), and the stream
  sends no frame for it.
\<close>

theorem anthropic_message_stop_yields_empty:
  \<open>json_loads sample_libs (py_strip '' {"type": "message_stop"}'') =
     Some (JObj [(''type'', JStr ''message_stop'')]) \<and>
   format_antropic sample_libs 0 ''data: {"type": "message_stop"}'' = Inr [] \<and>
   model_dump_json sample_libs (anthropic_chunk sample_libs 0 (Some ''stop'') (JStr []))
     \<noteq> Some [] \<and>
   format_streaming_response sample_libs anthropic 0 [''data: {"type": "message_stop"}''] =
     ([], None)\<close>
proof -
  let ?part = \<open>'' {"type": "message_stop"}''\<close>
  let ?chunk = \<open>''data: {"type": "message_stop"}''\<close>
  have j: "json_loads sample_libs (py_strip ?part) = Some (JObj [(''type'', JStr ''message_stop'')])"
    unfolding sample_strip by (simp add: sample_libs_def sample_json_loads_def)
  have t: "antropic_try sample_libs 0 (py_strip ?part) = Some []"
    unfolding antropic_try_def j by simp
  have f: "format_antropic sample_libs 0 ?chunk = Inr []"
    unfolding format_antropic_def py_split_def sample_split
    by (simp add: py_index_def t)
  have d: "model_dump_json sample_libs (anthropic_chunk sample_libs 0 (Some ''stop'') (JStr []))
      \<noteq> Some []"
    by (simp add: sample_libs_def sample_model_dump_json_def anthropic_chunk_def)
  from j f d show ?thesis
    by (simp add: format_chunk_eq)
qed

subsection \<open>Empty results in the stream\<close>

lemma format_openai_blank:
  assumes ws: "\<forall>c\<in>set ws. py_isspace c" and js: "json_loads L [] = None"
  shows "format_openai L k (''data:'' @ ws) = Inr []"
proof -
  from ws have "\<forall>c\<in>set ws. c \<noteq> CHR ''d''"
    using py_isspace_not_d by blast
  then have parts: "split_from ''data:'' [] (''data:'' @ ws) = [[], ws]"
    by (rule split_from_data_prefix)
  show ?thesis
    unfolding format_openai_def py_split_def py_index_def parts
    using js by (simp add: py_strip_spaces [OF ws])
qed

text \<open>
  C10. For every provider type, a chunk whose formatted result is the empty string yields
  no frame: the stream goes on with the next chunk. So does an OpenAI-compatible chunk
  whose text after \<open>data:\<close> is empty or only whitespace, \<open>json.loads\<close> rejecting the
  empty text.
\<close>

theorem stream_skips_empty:
  "(format_chunk L k chunk p = Inr [] \<longrightarrow>
      format_streaming_response L p k (chunk # rest) =
      format_streaming_response L p (Suc k) rest) \<and>
   (p \<in> {openai, llamacpp, openrouter} \<and> (\<forall>c\<in>set ws. py_isspace c) \<and>
    json_loads L [] = None \<longrightarrow>
      format_chunk L k (''data:'' @ ws) p = Inr [] \<and>
      format_streaming_response L p k ((''data:'' @ ws) # rest) =
      format_streaming_response L p (Suc k) rest)"
proof (intro conjI impI)
  assume "format_chunk L k chunk p = Inr []"
  then show "format_streaming_response L p k (chunk # rest) =
      format_streaming_response L p (Suc k) rest"
    by simp
next
  assume a: "p \<in> {openai, llamacpp, openrouter} \<and> (\<forall>c\<in>set ws. py_isspace c) \<and>
    json_loads L [] = None"
  then have "format_openai L k (''data:'' @ ws) = Inr []"
    by (intro format_openai_blank) blast+
  with a show b: "format_chunk L k (''data:'' @ ws) p = Inr []"
    by (auto simp: format_chunk_eq)
  then show "format_streaming_response L p k ((''data:'' @ ws) # rest) =
      format_streaming_response L p (Suc k) rest"
    by simp
qed

theorem stream_skips_empty_witness:
  "json_loads sample_libs [] = None \<and>
   format_chunk sample_libs 3 ''data:   '' openrouter = Inr [] \<and>
   format_streaming_response sample_libs openrouter 3 [''data:   '', ''data: x''] =
     ([''data:x'' @ [CHR 0x0A, CHR 0x0A]], None)"
proof -
  have 1: "openrouter \<in> {openai, llamacpp, openrouter} \<and> (\<forall>c\<in>set ''   ''. py_isspace c) \<and>
      json_loads sample_libs [] = None"
    by (simp add: py_isspace_def sample_libs_def sample_json_loads_def)
  have 2: "format_streaming_response sample_libs openrouter 4 [''data: x''] =
     ([''data:x'' @ [CHR 0x0A, CHR 0x0A]], None)"
    by (simp add: format_chunk_eq format_openai_def py_split_def py_index_def py_strip_def
        py_isspace_def sample_libs_def sample_json_loads_def format_as_openai_chunk_def)
  from stream_skips_empty [of sample_libs 3 "''data:   ''" openrouter "[''data: x'']" "''   ''"]
    1 2
  show ?thesis by simp
qed

section \<open>Properties of the body adapter\<close>

subsection \<open>Copies extend the heap\<close>

lemma prefix_list_update:
  "prefix h h1 \<Longrightarrow> length h \<le> a \<Longrightarrow> prefix h (h1[a := x])"
  by (auto simp: prefix_def list_update_append)

lemma copy_all_prefix:
  assumes c: "copy_all f h vs = Some (vs', h')"
    and f: "\<And>h v v' h'. f h v = Some (v', h') \<Longrightarrow> prefix h h'"
  shows "prefix h h'"
  using c
proof (induction vs arbitrary: h vs' h')
  case Nil
  then show ?case by simp
next
  case (Cons v vs)
  from Cons.prems obtain v' h1 vs1 where 1: "f h v = Some (v', h1)"
    and 2: "copy_all f h1 vs = Some (vs1, h')"
    by (auto split: option.splits)
  from f [OF 1] Cons.IH [OF 2] show ?case
    by (rule prefix_order.trans)
qed

lemma deepcopy_prefix: "deepcopy n h x = Some (x', h') \<Longrightarrow> prefix h h'"
proof (induction n arbitrary: h x x' h')
  case 0
  then show ?case by (cases x) auto
next
  case (Suc n)
  have step: "prefix h (h1[length h := ob])"
    if "copy_all (deepcopy n) (h @ [o0]) vs = Some (vs', h1)" for o0 vs vs' h1 ob
  proof -
    from that have "prefix (h @ [o0]) h1"
      by (rule copy_all_prefix) (rule Suc.IH)
    then have "prefix h h1"
      by (rule append_prefixD)
    then show ?thesis
      by (rule prefix_list_update) simp
  qed
  show ?case
  proof (cases x)
    case (VRef a)
    show ?thesis
    proof (cases "h ! a")
      case (ODict kvs)
      with Suc.prems VRef obtain vs' h1 where
        c: "copy_all (deepcopy n) (h @ [ODict []]) (map snd kvs) = Some (vs', h1)"
        and e: "h' = h1[length h := ODict (zip (map fst kvs) vs')]"
        by (auto split: if_splits option.splits)
      show ?thesis
        unfolding e by (rule step [OF c])
    next
      case (OList vs)
      with Suc.prems VRef obtain vs' h1 where
        c: "copy_all (deepcopy n) (h @ [OList []]) vs = Some (vs', h1)"
        and e: "h' = h1[length h := OList vs']"
        by (auto split: if_splits option.splits)
      show ?thesis
        unfolding e by (rule step [OF c])
    qed
  qed (use Suc.prems in auto)
qed

lemma deepcopy_dict:
  assumes "deepcopy n h (VRef a) = Some (x', h')" and "a < length h" and "h ! a = ODict kvs"
  shows "\<exists>vs'. x' = VRef (length h) \<and> length h < length h' \<and>
           h' ! length h = ODict (zip (map fst kvs) vs')"
proof (cases n)
  case 0
  with assms show ?thesis by simp
next
  case (Suc m)
  with assms obtain vs' h1 where c: "copy_all (deepcopy m) (h @ [ODict []]) (map snd kvs) = Some (vs', h1)"
    and r: "x' = VRef (length h)" "h' = h1[length h := ODict (zip (map fst kvs) vs')]"
    by (auto split: option.splits)
  from c have "prefix (h @ [ODict []]) h1"
    by (rule copy_all_prefix) (rule deepcopy_prefix)
  then have "length (h @ [ODict []]) \<le> length h1"
    by (rule prefix_length_le)
  with r show ?thesis by auto
qed

subsection \<open>A bounded body is copied\<close>

lemma bounded_prefix: "bounded n h x \<Longrightarrow> prefix h h' \<Longrightarrow> bounded n h' x"
proof (induction n arbitrary: x)
  case 0
  then show ?case by (cases x) auto
next
  case (Suc n)
  have all: "list_all (bounded n h') vs" if "list_all (bounded n h) vs" for vs
    using that Suc.IH [OF _ Suc.prems(2)] by (induction vs) auto
  show ?case
  proof (cases x)
    case (VRef a)
    with Suc.prems have a: "a < length h" by simp
    with Suc.prems(2) have same: "h' ! a = h ! a" "a < length h'"
      by (auto simp: prefix_def nth_append)
    show ?thesis
    proof (cases "h ! a")
      case (ODict kvs)
      with Suc.prems(1) VRef a have "list_all (bounded n h) (map snd kvs)" by simp
      from all [OF this] VRef same ODict show ?thesis by simp
    next
      case (OList vs)
      with Suc.prems(1) VRef a have "list_all (bounded n h) vs" by simp
      from all [OF this] VRef same OList show ?thesis by simp
    qed
  qed (use Suc.prems in auto)
qed

lemma list_all_bounded_prefix:
  "list_all (bounded n h) vs \<Longrightarrow> prefix h h' \<Longrightarrow> list_all (bounded n h') vs"
  by (induction vs) (auto intro: bounded_prefix)

lemma copy_all_returns:
  assumes b: "list_all (bounded n h) vs"
    and f: "\<And>h v. bounded n h v \<Longrightarrow> \<exists>r. deepcopy n h v = Some r"
  shows "\<exists>r. copy_all (deepcopy n) h vs = Some r"
  using b
proof (induction vs arbitrary: h)
  case Nil
  then show ?case by simp
next
  case (Cons v vs)
  then have bv: "bounded n h v" and bvs: "list_all (bounded n h) vs"
    by simp_all
  from f [OF bv] obtain v' h1 where d: "deepcopy n h v = Some (v', h1)"
    by auto
  then have "prefix h h1"
    by (rule deepcopy_prefix)
  with bvs have "list_all (bounded n h1) vs"
    by (rule list_all_bounded_prefix)
  from Cons.IH [OF this] obtain r where "copy_all (deepcopy n) h1 vs = Some r"
    by auto
  with d show ?case
    by (cases r) simp
qed

lemma deepcopy_returns: "bounded n h x \<Longrightarrow> \<exists>r. deepcopy n h x = Some r"
proof (induction n arbitrary: h x)
  case 0
  then show ?case by (cases x) auto
next
  case (Suc n)
  show ?case
  proof (cases x)
    case (VRef a)
    with Suc.prems have a: "a < length h" by simp
    have ext: "list_all (bounded n (h @ [ob])) vs" if "list_all (bounded n h) vs" for vs ob
      using that by (rule list_all_bounded_prefix) simp
    show ?thesis
    proof (cases "h ! a")
      case (ODict kvs)
      with Suc.prems VRef a have "list_all (bounded n h) (map snd kvs)"
        by simp
      then have "list_all (bounded n (h @ [ODict []])) (map snd kvs)"
        by (rule ext)
      then obtain r where "copy_all (deepcopy n) (h @ [ODict []]) (map snd kvs) = Some r"
        using copy_all_returns Suc.IH by meson
      with VRef a ODict show ?thesis
        by (cases r) simp
    next
      case (OList vs)
      with Suc.prems VRef a have "list_all (bounded n h) vs"
        by simp
      then have "list_all (bounded n (h @ [OList []])) vs"
        by (rule ext)
      then obtain r where "copy_all (deepcopy n) (h @ [OList []]) vs = Some r"
        using copy_all_returns Suc.IH by meson
      with VRef a OList show ?thesis
        by (cases r) simp
    qed
  qed simp_all
qed

lemma bounded_Ref_in_range: "bounded n h (VRef a) \<Longrightarrow> a < length h"
  by (cases n) auto

subsection \<open>The copy is made of new objects\<close>

lemma fresh_from_mono: "fresh_from m d h x \<Longrightarrow> m' \<le> m \<Longrightarrow> fresh_from m' d h x"
proof (induction d arbitrary: x)
  case 0
  then show ?case by (cases x) auto
next
  case (Suc d)
  have all: "list_all (fresh_from m' d h) vs" if "list_all (fresh_from m d h) vs" for vs
    using that Suc.IH [OF _ Suc.prems(2)] by (induction vs) auto
  show ?case
  proof (cases x)
    case (VRef a)
    show ?thesis
    proof (cases "h ! a")
      case (ODict kvs)
      with Suc.prems VRef show ?thesis by (simp add: all)
    next
      case (OList vs)
      with Suc.prems VRef show ?thesis by (simp add: all)
    qed
  qed simp_all
qed

lemma fresh_from_agree:
  assumes ag: "\<And>a. m \<le> a \<Longrightarrow> a < length h \<Longrightarrow> h' ! a = h ! a"
    and len: "length h \<le> length h'"
  shows "fresh_from m d h x \<Longrightarrow> fresh_from m d h' x"
proof (induction d arbitrary: x)
  case 0
  then show ?case using len by (cases x) auto
next
  case (Suc d)
  have all: "list_all (fresh_from m d h') vs" if "list_all (fresh_from m d h) vs" for vs
    using that Suc.IH by (induction vs) auto
  show ?case
  proof (cases x)
    case (VRef a)
    with Suc.prems have a: "m \<le> a" "a < length h" by simp_all
    then have same: "h' ! a = h ! a" by (rule ag)
    show ?thesis
    proof (cases "h ! a")
      case (ODict kvs)
      with Suc.prems VRef a same len show ?thesis by (simp add: all)
    next
      case (OList vs)
      with Suc.prems VRef a same len show ?thesis by (simp add: all)
    qed
  qed simp_all
qed

lemma fresh_from_prefix:
  "fresh_from m d h x \<Longrightarrow> prefix h h' \<Longrightarrow> fresh_from m d h' x"
  by (rule fresh_from_agree [of m h h']) (auto simp: prefix_def nth_append)

lemma fresh_from_update_below:
  "fresh_from m d h x \<Longrightarrow> a0 < m \<Longrightarrow> fresh_from m d (h[a0 := ob]) x"
  by (rule fresh_from_agree [of m h "h[a0 := ob]"]) auto

lemma copy_all_fresh:
  assumes c: "copy_all f h vs = Some (vs', h')"
    and p: "\<And>h v v' h'. f h v = Some (v', h') \<Longrightarrow> prefix h h'"
    and f: "\<And>h v v' h' d. f h v = Some (v', h') \<Longrightarrow> fresh_from (length h) d h' v'"
  shows "list_all (fresh_from (length h) d h') vs'"
  using c
proof (induction vs arbitrary: h vs' h')
  case Nil
  then show ?case by simp
next
  case (Cons v vs)
  from Cons.prems obtain v' h1 vs1 where 1: "f h v = Some (v', h1)"
    and 2: "copy_all f h1 vs = Some (vs1, h')" and 3: "vs' = v' # vs1"
    by (auto split: option.splits)
  from 2 have p2: "prefix h1 h'"
    by (rule copy_all_prefix) (rule p)
  from p [OF 1] have le: "length h \<le> length h1"
    by (rule prefix_length_le)
  have "fresh_from (length h) d h1 v'"
    by (rule f [OF 1])
  then have hd: "fresh_from (length h) d h' v'"
    using p2 by (rule fresh_from_prefix)
  have "list_all (fresh_from (length h1) d h') vs1"
    by (rule Cons.IH [OF 2])
  then have "list_all (fresh_from (length h) d h') vs1"
    using le by (induction vs1) (auto intro: fresh_from_mono)
  with hd 3 show ?case by simp
qed

lemma list_all_zip_snd: "list_all P vs \<Longrightarrow> list_all P (map snd (zip ks vs))"
  by (auto simp: list_all_iff dest: set_zip_rightD)

lemma deepcopy_fresh: "deepcopy n h x = Some (x', h') \<Longrightarrow> fresh_from (length h) d h' x'"
proof (induction n arbitrary: h x x' h' d)
  case 0
  then show ?case by (cases x; cases d) auto
next
  case (Suc n)
  have kids: "list_all (fresh_from (length h) e (h1[length h := ob])) vs'"
    if c: "copy_all (deepcopy n) (h @ [o0]) vs = Some (vs', h1)" for o0 vs vs' h1 ob e
  proof -
    have "list_all (fresh_from (length (h @ [o0])) e h1) vs'"
      by (rule copy_all_fresh [OF c]) (erule deepcopy_prefix, erule Suc.IH)
    then show ?thesis
      by (induction vs') (auto intro: fresh_from_mono fresh_from_update_below)
  qed
  have len: "length h < length h1"
    if c: "copy_all (deepcopy n) (h @ [o0]) vs = Some (vs', h1)" for o0 vs vs' h1
  proof -
    from c have "prefix (h @ [o0]) h1"
      by (rule copy_all_prefix) (rule deepcopy_prefix)
    then have "length (h @ [o0]) \<le> length h1"
      by (rule prefix_length_le)
    then show ?thesis by simp
  qed
  show ?case
  proof (cases x)
    case (VRef a)
    show ?thesis
    proof (cases "h ! a")
      case (ODict kvs)
      with Suc.prems VRef obtain vs' h1 where
        c: "copy_all (deepcopy n) (h @ [ODict []]) (map snd kvs) = Some (vs', h1)"
        and e: "h' = h1[length h := ODict (zip (map fst kvs) vs')]" "x' = VRef (length h)"
        by (auto split: if_splits option.splits)
      show ?thesis
        unfolding e using len [OF c] kids [OF c]
        by (cases d) (simp_all add: list_all_zip_snd)
    next
      case (OList vs)
      with Suc.prems VRef obtain vs' h1 where
        c: "copy_all (deepcopy n) (h @ [OList []]) vs = Some (vs', h1)"
        and e: "h' = h1[length h := OList vs']" "x' = VRef (length h)"
        by (auto split: if_splits option.splits)
      show ?thesis
        unfolding e using len [OF c] kids [OF c]
        by (cases d) simp_all
    qed
  next
    case VNone
    with Suc.prems show ?thesis by (cases d) auto
  next
    case (VBool b)
    with Suc.prems show ?thesis by (cases d) auto
  next
    case (VInt i)
    with Suc.prems show ?thesis by (cases d) auto
  next
    case (VFloat w)
    with Suc.prems show ?thesis by (cases d) auto
  next
    case (VStr t)
    with Suc.prems show ?thesis by (cases d) auto
  qed
qed

lemma fresh_from_set_dict:
  assumes x: "\<And>e. fresh_from m e h x"
    and a0: "a0 < length h" and cell: "h ! a0 = ODict kvs"
    and new: "\<And>v. v \<in> set (map snd kvs') \<Longrightarrow> v \<in> set (map snd kvs) \<or> (\<forall>a. v \<noteq> VRef a)"
  shows "fresh_from m d (h[a0 := ODict kvs']) x"
  using x
proof (induction d arbitrary: x)
  case 0
  from "0" [of 0] show ?case by (cases x) auto
next
  case (Suc d)
  show ?case
  proof (cases x)
    case (VRef a)
    from Suc.prems [of 0] VRef have a: "m \<le> a" "a < length h" by simp_all
    have kid: "fresh_from m e h v"
      if "v \<in> (case h ! a of ODict kvs \<Rightarrow> set (map snd kvs) | OList vs \<Rightarrow> set vs)" for v e
      using Suc.prems [of "Suc e"] VRef that
      by (cases "h ! a") (auto simp: list_all_iff)
    show ?thesis
    proof (cases "a = a0")
      case True
      have "fresh_from m d (h[a0 := ODict kvs']) v" if v: "v \<in> set (map snd kvs')" for v
      proof -
        from new [OF v] show ?thesis
        proof
          assume "v \<in> set (map snd kvs)"
          with True cell have "\<And>e. fresh_from m e h v"
            using kid by simp
          then show ?thesis by (rule Suc.IH)
        next
          assume "\<forall>a. v \<noteq> VRef a"
          then show ?thesis by (cases v; cases d) auto
        qed
      qed
      with True a a0 VRef show ?thesis
        by (simp add: list_all_iff)
    next
      case False
      have "fresh_from m d (h[a0 := ODict kvs']) v"
        if "v \<in> (case h ! a of ODict kvs \<Rightarrow> set (map snd kvs) | OList vs \<Rightarrow> set vs)" for v
        using kid [OF that] by (rule Suc.IH)
      with False a VRef show ?thesis
        by (cases "h ! a") (auto simp: list_all_iff)
    qed
  qed simp_all
qed

lemma update_values: "v' \<in> set (map snd (AList.update k v al)) \<Longrightarrow> v' = v \<or> v' \<in> set (map snd al)"
  by (induction al) (auto split: if_splits)

subsection \<open>The rewritten body\<close>

lemma set_destination_info_result:
  assumes b: "bounded n h (VRef a)" and d: "h ! a = ODict kvs"
  shows "\<exists>vs' h1.
    prefix h h1 \<and> length h < length h1 \<and>
    h1 ! length h = ODict (zip (map fst kvs) vs') \<and>
    (\<forall>e. fresh_from (length h) e h1 (VRef (length h))) \<and>
    set_destination_info n model_route h (VRef a) =
       Inr (VRef (length h),
            h1[length h := ODict (AList.update ''base_url''
                                    (VStr (get_provider_formatted_url model_route))
                                    (AList.update ''model'' (VStr (name (route_model model_route)))
                                       (zip (map fst kvs) vs')))])"
proof -
  from b have a: "a < length h"
    by (rule bounded_Ref_in_range)
  from deepcopy_returns [OF b] obtain x' h1 where c: "deepcopy n h (VRef a) = Some (x', h1)"
    by auto
  from deepcopy_dict [OF c a d] obtain vs' where x': "x' = VRef (length h)"
    and len: "length h < length h1" and cell: "h1 ! length h = ODict (zip (map fst kvs) vs')"
    by auto
  from c have p: "prefix h h1"
    by (rule deepcopy_prefix)
  have f: "\<forall>e. fresh_from (length h) e h1 (VRef (length h))"
    using deepcopy_fresh [OF c] x' by simp
  have "set_destination_info n model_route h (VRef a) =
       Inr (VRef (length h),
            h1[length h := ODict (AList.update ''base_url''
                                    (VStr (get_provider_formatted_url model_route))
                                    (AList.update ''model'' (VStr (name (route_model model_route)))
                                       (zip (map fst kvs) vs')))])"
    by (simp add: set_destination_info_def c x' set_item_def len cell)
  with p len cell f show ?thesis
    by blast
qed

text \<open>
  C8. For every route and every body that is a \<open>dict\<close> on the heap, of bounded
  nesting, \<open>set_destination_info\<close> returns a \<open>dict\<close> whose \<open>model\<close> is the name of the
  route's model and whose \<open>base_url\<close> is the endpoint followed by \<open>/v1\<close> for openai and
  openrouter, and the endpoint itself for every other provider type.
\<close>

theorem set_destination_info_model_base_url:
  assumes "bounded n h (VRef a)" and "h ! a = ODict kvs"
  shows "\<exists>a' h' kvs'.
           set_destination_info n model_route h (VRef a) = Inr (VRef a', h') \<and>
           a' < length h' \<and> h' ! a' = ODict kvs' \<and>
           map_of kvs' ''model'' = Some (VStr (name (route_model model_route))) \<and>
           map_of kvs' ''base_url'' =
             Some (VStr (if provider_type (route_endpoint model_route) = openai \<or>
                            provider_type (route_endpoint model_route) = openrouter
                         then endpoint (route_endpoint model_route) @ ''/v1''
                         else endpoint (route_endpoint model_route)))"
proof -
  from set_destination_info_result [OF assms, of model_route]
  obtain vs' h1 where len: "length h < length h1" and
    r: "set_destination_info n model_route h (VRef a) =
       Inr (VRef (length h),
            h1[length h := ODict (AList.update ''base_url''
                                    (VStr (get_provider_formatted_url model_route))
                                    (AList.update ''model'' (VStr (name (route_model model_route)))
                                       (zip (map fst kvs) vs')))])"
    by blast
  show ?thesis
    unfolding r using len
    by (auto simp: update_conv' get_provider_formatted_url_def)
qed

theorem set_destination_info_model_base_url_witness:
  "bounded 3 sample_heap (VRef 2) \<and>
   (\<exists>a' h' kvs'.
      set_destination_info 3 (sample_route openrouter) sample_heap (VRef 2) = Inr (VRef a', h') \<and>
      h' ! a' = ODict kvs' \<and>
      map_of kvs' ''model'' = Some (VStr ''m1'') \<and>
      map_of kvs' ''base_url'' = Some (VStr ''http://x/v1'')) \<and>
   (\<exists>a' h' kvs'.
      set_destination_info 3 (sample_route ollama) sample_heap (VRef 2) = Inr (VRef a', h') \<and>
      h' ! a' = ODict kvs' \<and>
      map_of kvs' ''model'' = Some (VStr ''m1'') \<and>
      map_of kvs' ''base_url'' = Some (VStr ''http://x''))"
proof -
  have b: "bounded 3 sample_heap (VRef 2)"
    by (simp add: eval_nat_numeral sample_heap_def)
  have c: "sample_heap ! 2 =
      ODict [(''model'', VStr ''gpt''), (''messages'', VRef 1), (''stream'', VBool True)]"
    by (simp add: sample_heap_def)
  from set_destination_info_model_base_url [OF b c, of "sample_route openrouter"]
    set_destination_info_model_base_url [OF b c, of "sample_route ollama"] b
  show ?thesis
    unfolding sample_route_def by simp blast
qed

subsection \<open>The copy reads as the body\<close>

lemma load_items_mono:
  assumes "\<And>v j. v \<in> snd ` set kvs \<Longrightarrow> f v = Some j \<Longrightarrow> g v = Some j"
  shows "load_items f kvs = Some js \<Longrightarrow> load_items g kvs = Some js"
  using assms
proof (induction kvs arbitrary: js)
  case Nil
  then show ?case by simp
next
  case (Cons kv kvs)
  obtain k v where kv: "kv = (k, v)" by (cases kv)
  from Cons.prems(1) kv obtain j js0 where 1: "f v = Some j"
    and 2: "load_items f kvs = Some js0" and 3: "js = (k, j) # js0"
    by (auto split: option.splits)
  from 1 kv have "g v = Some j"
    by (intro Cons.prems(2)) simp_all
  moreover have "load_items g kvs = Some js0"
    using 2 by (rule Cons.IH) (rule Cons.prems(2), auto)
  ultimately show ?case
    using kv 3 by simp
qed

lemma load_elems_mono:
  assumes "\<And>v j. v \<in> set vs \<Longrightarrow> f v = Some j \<Longrightarrow> g v = Some j"
  shows "load_elems f vs = Some js \<Longrightarrow> load_elems g vs = Some js"
  using assms
proof (induction vs arbitrary: js)
  case Nil
  then show ?case by simp
next
  case (Cons v vs)
  from Cons.prems(1) obtain j js0 where 1: "f v = Some j"
    and 2: "load_elems f vs = Some js0" and 3: "js = j # js0"
    by (auto split: option.splits)
  from 1 have "g v = Some j"
    by (intro Cons.prems(2)) simp_all
  moreover have "load_elems g vs = Some js0"
    using 2 by (rule Cons.IH) (rule Cons.prems(2), auto)
  ultimately show ?case
    using 3 by simp
qed

lemma load_items_cong:
  "(\<And>v. v \<in> snd ` set kvs \<Longrightarrow> f v = g v) \<Longrightarrow> load_items f kvs = load_items g kvs"
  by (induction kvs) (auto split: option.splits)

lemma load_elems_cong:
  "(\<And>v. v \<in> set vs \<Longrightarrow> f v = g v) \<Longrightarrow> load_elems f vs = load_elems g vs"
  by (induction vs) (auto split: option.splits)

lemma load_prefix: "load n h x = Some j \<Longrightarrow> prefix h h' \<Longrightarrow> load n h' x = Some j"
proof (induction n arbitrary: x j)
  case 0
  then show ?case by (cases x) auto
next
  case (Suc n)
  show ?case
  proof (cases x)
    case (VRef a)
    with Suc.prems(1) have a: "a < length h"
      by (simp split: if_splits)
    with Suc.prems(2) have same: "h' ! a = h ! a" "a < length h'"
      by (auto simp: prefix_def nth_append)
    show ?thesis
    proof (cases "h ! a")
      case (ODict kvs)
      with Suc.prems(1) VRef a obtain js where js: "load_items (load n h) kvs = Some js"
        and j: "j = JObj js"
        by auto
      from js have "load_items (load n h') kvs = Some js"
        by (rule load_items_mono [rotated]) (rule Suc.IH [OF _ Suc.prems(2)])
      with VRef same ODict j show ?thesis by simp
    next
      case (OList vs)
      with Suc.prems(1) VRef a obtain js where js: "load_elems (load n h) vs = Some js"
        and j: "j = JArr js"
        by auto
      from js have "load_elems (load n h') vs = Some js"
        by (rule load_elems_mono [rotated]) (rule Suc.IH [OF _ Suc.prems(2)])
      with VRef same OList j show ?thesis by simp
    qed
  qed (use Suc.prems in auto)
qed

lemma load_agree:
  assumes ag: "\<And>a. m \<le> a \<Longrightarrow> a < length h \<Longrightarrow> h' ! a = h ! a"
    and len: "length h \<le> length h'"
  shows "fresh_from m n h x \<Longrightarrow> load n h' x = load n h x"
proof (induction n arbitrary: x)
  case 0
  then show ?case by (cases x) auto
next
  case (Suc n)
  show ?case
  proof (cases x)
    case (VRef a)
    with Suc.prems have a: "m \<le> a" "a < length h" by simp_all
    then have same: "h' ! a = h ! a" by (rule ag)
    from a len have a': "a < length h'" by simp
    show ?thesis
    proof (cases "h ! a")
      case (ODict kvs)
      with Suc.prems VRef a have "list_all (fresh_from m n h) (map snd kvs)" by simp
      then have "load_items (load n h') kvs = load_items (load n h) kvs"
        by (intro load_items_cong Suc.IH) (auto simp: list_all_iff)
      with VRef a a' same ODict show ?thesis by simp
    next
      case (OList vs)
      with Suc.prems VRef a have "list_all (fresh_from m n h) vs" by simp
      then have "load_elems (load n h') vs = load_elems (load n h) vs"
        by (intro load_elems_cong Suc.IH) (auto simp: list_all_iff)
      with VRef a a' same OList show ?thesis by simp
    qed
  qed simp_all
qed

lemma load_update_below:
  "fresh_from m n h x \<Longrightarrow> a0 < m \<Longrightarrow> load n (h[a0 := ob]) x = load n h x"
  by (rule load_agree [of m h "h[a0 := ob]"]) auto

lemma bounded_load: "bounded n h x \<Longrightarrow> \<exists>j. load n h x = Some j"
proof (induction n arbitrary: x)
  case 0
  then show ?case by (cases x) auto
next
  case (Suc n)
  have items: "\<exists>js. load_items (load n h) kvs = Some js"
    if "list_all (bounded n h) (map snd kvs)" for kvs
    using that
  proof (induction kvs)
    case Nil
    then show ?case by simp
  next
    case (Cons kv kvs)
    obtain k v where kv: "kv = (k, v)" by (cases kv)
    with Cons.prems have "bounded n h v" "list_all (bounded n h) (map snd kvs)" by simp_all
    with Suc.IH [of v] Cons.IH kv show ?case by auto
  qed
  have elems: "\<exists>js. load_elems (load n h) vs = Some js"
    if "list_all (bounded n h) vs" for vs
    using that
  proof (induction vs)
    case Nil
    then show ?case by simp
  next
    case (Cons v vs)
    then have "bounded n h v" "list_all (bounded n h) vs" by simp_all
    with Suc.IH [of v] Cons.IH show ?case by auto
  qed
  show ?case
  proof (cases x)
    case (VRef a)
    with Suc.prems have a: "a < length h" by simp
    show ?thesis
    proof (cases "h ! a")
      case (ODict kvs)
      with Suc.prems VRef a have "list_all (bounded n h) (map snd kvs)" by simp
      from items [OF this] VRef a ODict show ?thesis by auto
    next
      case (OList vs)
      with Suc.prems VRef a have "list_all (bounded n h) vs" by simp
      from elems [OF this] VRef a OList show ?thesis by auto
    qed
  qed simp_all
qed

lemma copy_all_load_items:
  assumes c: "copy_all f h0 (map snd kvs) = Some (vs', h1)"
    and l: "load_items (load n h0) kvs = Some js"
    and p: "\<And>h v v' h'. f h v = Some (v', h') \<Longrightarrow> prefix h h'"
    and f: "\<And>h v v' h' j. f h v = Some (v', h') \<Longrightarrow> load n h v = Some j \<Longrightarrow>
              load n h' v' = Some j"
  shows "load_items (load n h1) (zip (map fst kvs) vs') = Some js"
  using c l
proof (induction kvs arbitrary: h0 vs' js)
  case Nil
  then show ?case by simp
next
  case (Cons kv kvs)
  obtain k v where kv: "kv = (k, v)" by (cases kv)
  from Cons.prems(1) kv obtain v' h0' vs1 where 1: "f h0 v = Some (v', h0')"
    and 2: "copy_all f h0' (map snd kvs) = Some (vs1, h1)" and 3: "vs' = v' # vs1"
    by (auto split: option.splits)
  from Cons.prems(2) kv obtain j js0 where 4: "load n h0 v = Some j"
    and 5: "load_items (load n h0) kvs = Some js0" and 6: "js = (k, j) # js0"
    by (auto split: option.splits)
  from 2 have p2: "prefix h0' h1"
    by (rule copy_all_prefix) (rule p)
  have "load n h0' v' = Some j"
    using 1 4 by (rule f)
  then have a: "load n h1 v' = Some j"
    using p2 by (rule load_prefix)
  have "load_items (load n h0') kvs = Some js0"
    using 5 by (rule load_items_mono [rotated]) (rule load_prefix, assumption, rule p [OF 1])
  with 2 have "load_items (load n h1) (zip (map fst kvs) vs1) = Some js0"
    by (rule Cons.IH)
  with a kv 3 6 show ?case by simp
qed

lemma copy_all_load_elems:
  assumes c: "copy_all f h0 vs = Some (vs', h1)"
    and l: "load_elems (load n h0) vs = Some js"
    and p: "\<And>h v v' h'. f h v = Some (v', h') \<Longrightarrow> prefix h h'"
    and f: "\<And>h v v' h' j. f h v = Some (v', h') \<Longrightarrow> load n h v = Some j \<Longrightarrow>
              load n h' v' = Some j"
  shows "load_elems (load n h1) vs' = Some js"
  using c l
proof (induction vs arbitrary: h0 vs' js)
  case Nil
  then show ?case by simp
next
  case (Cons v vs)
  from Cons.prems(1) obtain v' h0' vs1 where 1: "f h0 v = Some (v', h0')"
    and 2: "copy_all f h0' vs = Some (vs1, h1)" and 3: "vs' = v' # vs1"
    by (auto split: option.splits)
  from Cons.prems(2) obtain j js0 where 4: "load n h0 v = Some j"
    and 5: "load_elems (load n h0) vs = Some js0" and 6: "js = j # js0"
    by (auto split: option.splits)
  from 2 have p2: "prefix h0' h1"
    by (rule copy_all_prefix) (rule p)
  have "load n h0' v' = Some j"
    using 1 4 by (rule f)
  then have a: "load n h1 v' = Some j"
    using p2 by (rule load_prefix)
  have "load_elems (load n h0') vs = Some js0"
    using 5 by (rule load_elems_mono [rotated]) (rule load_prefix, assumption, rule p [OF 1])
  with 2 have "load_elems (load n h1) vs1 = Some js0"
    by (rule Cons.IH)
  with a 3 6 show ?case by simp
qed

lemma load_items_update_below:
  assumes "list_all (fresh_from m n h) vs'" and "a0 < m"
  shows "load_items (load n (h[a0 := ob])) (zip ks vs') = load_items (load n h) (zip ks vs')"
proof (rule load_items_cong)
  fix v
  assume "v \<in> snd ` set (zip ks vs')"
  then have "v \<in> set vs'"
    by (auto dest: set_zip_rightD)
  with assms(1) have "fresh_from m n h v"
    by (simp add: list_all_iff)
  then show "load n (h[a0 := ob]) v = load n h v"
    using assms(2) by (rule load_update_below)
qed

lemma load_elems_update_below:
  assumes "list_all (fresh_from m n h) vs'" and "a0 < m"
  shows "load_elems (load n (h[a0 := ob])) vs' = load_elems (load n h) vs'"
proof (rule load_elems_cong)
  fix v
  assume "v \<in> set vs'"
  with assms(1) have "fresh_from m n h v"
    by (simp add: list_all_iff)
  then show "load n (h[a0 := ob]) v = load n h v"
    using assms(2) by (rule load_update_below)
qed

text \<open>The copy reads as the same JSON value as the original.\<close>

lemma deepcopy_load:
  "deepcopy n h x = Some (x', h') \<Longrightarrow> load n h x = Some j \<Longrightarrow> load n h' x' = Some j"
proof (induction n arbitrary: h x x' h' j)
  case 0
  then show ?case by (cases x) auto
next
  case (Suc n)
  have len: "length h < length h1"
    if c: "copy_all (deepcopy n) (h @ [o0]) vs = Some (vs', h1)" for o0 vs vs' h1
  proof -
    from c have "prefix (h @ [o0]) h1"
      by (rule copy_all_prefix) (rule deepcopy_prefix)
    then have "length (h @ [o0]) \<le> length h1"
      by (rule prefix_length_le)
    then show ?thesis by simp
  qed
  have fresh: "list_all (fresh_from (Suc (length h)) n h1) vs'"
    if c: "copy_all (deepcopy n) (h @ [o0]) vs = Some (vs', h1)" for o0 vs vs' h1
    using copy_all_fresh [OF c, of n] deepcopy_prefix deepcopy_fresh by simp
  show ?case
  proof (cases x)
    case (VRef a)
    with Suc.prems(2) have a: "a < length h"
      by (simp split: if_splits)
    show ?thesis
    proof (cases "h ! a")
      case (ODict kvs)
      with Suc.prems(1) VRef a obtain vs' h1 where
        c: "copy_all (deepcopy n) (h @ [ODict []]) (map snd kvs) = Some (vs', h1)"
        and e: "h' = h1[length h := ODict (zip (map fst kvs) vs')]" "x' = VRef (length h)"
        by (auto split: option.splits)
      from Suc.prems(2) VRef a ODict obtain js where
        js: "load_items (load n h) kvs = Some js" and j: "j = JObj js"
        by auto
      from js have "load_items (load n (h @ [ODict []])) kvs = Some js"
        by (rule load_items_mono [rotated]) (rule load_prefix, assumption, simp)
      with c have "load_items (load n h1) (zip (map fst kvs) vs') = Some js"
        by (rule copy_all_load_items) (erule deepcopy_prefix, erule Suc.IH, assumption)
      then have "load_items (load n (h1[length h := ODict (zip (map fst kvs) vs')]))
          (zip (map fst kvs) vs') = Some js"
        using load_items_update_below [OF fresh [OF c], of "length h"] by simp
      with e j len [OF c] show ?thesis
        by simp
    next
      case (OList vs)
      with Suc.prems(1) VRef a obtain vs' h1 where
        c: "copy_all (deepcopy n) (h @ [OList []]) vs = Some (vs', h1)"
        and e: "h' = h1[length h := OList vs']" "x' = VRef (length h)"
        by (auto split: option.splits)
      from Suc.prems(2) VRef a OList obtain js where
        js: "load_elems (load n h) vs = Some js" and j: "j = JArr js"
        by auto
      from js have "load_elems (load n (h @ [OList []])) vs = Some js"
        by (rule load_elems_mono [rotated]) (rule load_prefix, assumption, simp)
      with c have "load_elems (load n h1) vs' = Some js"
        by (rule copy_all_load_elems) (erule deepcopy_prefix, erule Suc.IH, assumption)
      then have "load_elems (load n (h1[length h := OList vs'])) vs' = Some js"
        using load_elems_update_below [OF fresh [OF c], of "length h"] by simp
      with e j len [OF c] show ?thesis
        by simp
    qed
  qed (use Suc.prems in auto)
qed

lemma load_items_update:
  "load_items f al = Some js \<Longrightarrow> f v = Some j \<Longrightarrow>
   load_items f (AList.update k v al) = Some (AList.update k j js)"
  by (induction al arbitrary: js) (auto split: option.splits)

lemma deepcopy_dict_parts:
  assumes "deepcopy n h (VRef a) = Some (x', h')" and "a < length h" and "h ! a = ODict kvs"
  shows "\<exists>n0 vs' h1.
           n = Suc n0 \<and>
           copy_all (deepcopy n0) (h @ [ODict []]) (map snd kvs) = Some (vs', h1) \<and>
           x' = VRef (length h) \<and> h' = h1[length h := ODict (zip (map fst kvs) vs')] \<and>
           length h < length h1 \<and> prefix h h1"
proof (cases n)
  case 0
  with assms show ?thesis by simp
next
  case (Suc n0)
  with assms obtain vs' h1 where
    c: "copy_all (deepcopy n0) (h @ [ODict []]) (map snd kvs) = Some (vs', h1)"
    and r: "x' = VRef (length h)" "h' = h1[length h := ODict (zip (map fst kvs) vs')]"
    by (auto split: option.splits)
  from c have p: "prefix (h @ [ODict []]) h1"
    by (rule copy_all_prefix) (rule deepcopy_prefix)
  then have "length (h @ [ODict []]) \<le> length h1"
    by (rule prefix_length_le)
  moreover from p have "prefix h h1"
    by (rule append_prefixD)
  ultimately show ?thesis
    using Suc c r by auto
qed

text \<open>
  C9. For every route and every body that is a \<open>dict\<close> on the heap, of bounded
  nesting, \<open>set_destination_info\<close> returns a deep copy and leaves the body as it was:
  the result is a new object; every object that existed before the call is unchanged,
  so the body reads as the same JSON value, at every depth, before and after the call;
  every object reached from the result is new, so the result shares no \<open>dict\<close> or
  \<open>list\<close> with the body; and the result reads as the JSON value of the body, at every
  depth, with the two keys \<open>model\<close> and \<open>base_url\<close> set.
\<close>

theorem set_destination_info_keeps_original:
  assumes "bounded n h (VRef a)" and "h ! a = ODict kvs"
  shows "\<exists>a' h' body.
           set_destination_info n model_route h (VRef a) = Inr (VRef a', h') \<and>
           length h \<le> a' \<and> take (length h) h' = h \<and>
           (\<forall>d. fresh_from (length h) d h' (VRef a')) \<and>
           load n h (VRef a) = Some (JObj body) \<and>
           load n h' (VRef a) = Some (JObj body) \<and>
           load n h' (VRef a') =
             Some (JObj (AList.update ''base_url''
                           (JStr (get_provider_formatted_url model_route))
                           (AList.update ''model'' (JStr (name (route_model model_route)))
                              body)))"
proof -
  let ?m = "length h"
  let ?U = "get_provider_formatted_url model_route"
  let ?M = "name (route_model model_route)"
  from assms(1) have a: "a < length h"
    by (rule bounded_Ref_in_range)
  from deepcopy_returns [OF assms(1)] obtain x' hc where
    dc: "deepcopy n h (VRef a) = Some (x', hc)"
    by auto
  from deepcopy_dict_parts [OF dc a assms(2)] obtain n0 vs' h1 where
    n: "n = Suc n0"
    and c: "copy_all (deepcopy n0) (h @ [ODict []]) (map snd kvs) = Some (vs', h1)"
    and x': "x' = VRef ?m" and hc: "hc = h1[?m := ODict (zip (map fst kvs) vs')]"
    and len: "?m < length h1" and p: "prefix h h1"
    by blast
  let ?K = "AList.update ''base_url'' (VStr ?U)
              (AList.update ''model'' (VStr ?M) (zip (map fst kvs) vs'))"
  let ?h' = "h1[?m := ODict ?K]"
  have r: "set_destination_info n model_route h (VRef a) = Inr (VRef ?m, ?h')"
    by (simp add: set_destination_info_def dc x' hc set_item_def len)
  from p have t: "take ?m h1 = h"
    by (auto simp: prefix_def)
  then have frame: "take ?m ?h' = h"
    by simp
  then have p': "prefix h ?h'"
    by (metis take_is_prefix)
  have f0: "fresh_from ?m e hc (VRef ?m)" for e
    using deepcopy_fresh [OF dc, of e] x' by simp
  have cell: "hc ! ?m = ODict (zip (map fst kvs) vs')"
    using hc len by simp
  have lenc: "?m < length hc"
    using hc len by simp
  have "fresh_from ?m d (hc[?m := ODict ?K]) (VRef ?m)" for d
  proof (rule fresh_from_set_dict [OF f0 lenc cell])
    fix v
    assume "v \<in> set (map snd ?K)"
    then have "v = VStr ?U \<or> v = VStr ?M \<or> v \<in> set (map snd (zip (map fst kvs) vs'))"
      by (blast dest: update_values)
    then show "v \<in> set (map snd (zip (map fst kvs) vs')) \<or> (\<forall>a. v \<noteq> VRef a)"
      by blast
  qed
  then have fresh: "\<forall>d. fresh_from ?m d ?h' (VRef ?m)"
    unfolding hc by simp
  from bounded_load [OF assms(1)] obtain j where j: "load n h (VRef a) = Some j"
    by blast
  with a assms(2) n obtain body where body: "load_items (load n0 h) kvs = Some body"
    and jb: "j = JObj body"
    by auto
  from j p' have after: "load n ?h' (VRef a) = Some j"
    by (rule load_prefix)
  from body have "load_items (load n0 (h @ [ODict []])) kvs = Some body"
    by (rule load_items_mono [rotated]) (rule load_prefix, assumption, simp)
  with c have "load_items (load n0 h1) (zip (map fst kvs) vs') = Some body"
    by (rule copy_all_load_items) (erule deepcopy_prefix, erule deepcopy_load, assumption)
  moreover have "list_all (fresh_from (Suc ?m) n0 h1) vs'"
    using copy_all_fresh [OF c, of n0] deepcopy_prefix deepcopy_fresh by simp
  ultimately have "load_items (load n0 ?h') (zip (map fst kvs) vs') = Some body"
    using load_items_update_below [of "Suc ?m" n0 h1 vs' ?m] by simp
  then have "load_items (load n0 ?h') ?K =
      Some (AList.update ''base_url'' (JStr ?U) (AList.update ''model'' (JStr ?M) body))"
    by (intro load_items_update) (cases n0; simp)+
  then have copy: "load n ?h' (VRef ?m) =
      Some (JObj (AList.update ''base_url'' (JStr ?U) (AList.update ''model'' (JStr ?M) body)))"
    using n len by simp
  from r frame fresh j after jb copy show ?thesis
    by simp
qed

theorem set_destination_info_keeps_original_witness:
  "bounded 3 sample_heap (VRef 2) \<and>
   (\<exists>a' h'.
      set_destination_info 3 (sample_route openrouter) sample_heap (VRef 2) = Inr (VRef a', h') \<and>
      3 \<le> a' \<and> take 3 h' = sample_heap \<and>
      load 3 h' (VRef 2) =
        Some (JObj [(''model'', JStr ''gpt''),
                    (''messages'', JArr [JObj [(''role'', JStr ''user''),
                                               (''content'', JStr ''hi'')]]),
                    (''stream'', JBool True)]) \<and>
      load 3 h' (VRef a') =
        Some (JObj [(''model'', JStr ''m1''),
                    (''messages'', JArr [JObj [(''role'', JStr ''user''),
                                               (''content'', JStr ''hi'')]]),
                    (''stream'', JBool True),
                    (''base_url'', JStr ''http://x/v1'')]))"
proof -
  have b: "bounded 3 sample_heap (VRef 2)"
    by (simp add: eval_nat_numeral sample_heap_def)
  have c: "sample_heap ! 2 =
      ODict [(''model'', VStr ''gpt''), (''messages'', VRef 1), (''stream'', VBool True)]"
    by (simp add: sample_heap_def)
  have l: "length sample_heap = 3"
    by (simp add: sample_heap_def)
  have v: "load 3 sample_heap (VRef 2) =
      Some (JObj [(''model'', JStr ''gpt''),
                  (''messages'', JArr [JObj [(''role'', JStr ''user''),
                                             (''content'', JStr ''hi'')]]),
                  (''stream'', JBool True)])"
    by (simp add: eval_nat_numeral sample_heap_def)
  from set_destination_info_keeps_original [OF b c, of "sample_route openrouter"]
  obtain a' h' body where
    1: "set_destination_info 3 (sample_route openrouter) sample_heap (VRef 2) = Inr (VRef a', h')"
    and 2: "length sample_heap \<le> a'" "take (length sample_heap) h' = sample_heap"
    and 3: "load 3 sample_heap (VRef 2) = Some (JObj body)"
    and 4: "load 3 h' (VRef 2) = Some (JObj body)"
    and 5: "load 3 h' (VRef a') =
             Some (JObj (AList.update ''base_url''
                           (JStr (get_provider_formatted_url (sample_route openrouter)))
                           (AList.update ''model''
                              (JStr (name (route_model (sample_route openrouter)))) body)))"
    by blast
  from 3 v have body: "body = [(''model'', JStr ''gpt''),
                  (''messages'', JArr [JObj [(''role'', JStr ''user''),
                                             (''content'', JStr ''hi'')]]),
                  (''stream'', JBool True)]"
    by simp
  from 5 have 6: "load 3 h' (VRef a') =
        Some (JObj [(''model'', JStr ''m1''),
                    (''messages'', JArr [JObj [(''role'', JStr ''user''),
                                               (''content'', JStr ''hi'')]]),
                    (''stream'', JBool True),
                    (''base_url'', JStr ''http://x/v1'')])"
    unfolding body by (simp add: sample_route_def get_provider_formatted_url_def)
  from b 1 2 4 6 show ?thesis
    unfolding l body by blast
qed

section \<open>Properties of the recorder\<close>

subsection \<open>The task group\<close>

lemma run_task_length: "length (fst (run_task E i st)) = length (fst st)"
  by (cases st) (auto simp: run_task_def split: task.splits prod.splits sum.splits)

lemma fold_run_task_length: "length (fst (fold (run_task E) xs st)) = length (fst st)"
  by (induction xs arbitrary: st) (simp_all add: run_task_length)

text \<open>A task that is no longer pending stays so, and running a task leaves it not pending.\<close>

lemma run_task_settles:
  assumes "j < length (fst st)" and "j = i \<or> (\<forall>alert. fst st ! j \<noteq> Pending alert)"
  shows "\<forall>alert. fst (run_task E i st) ! j \<noteq> Pending alert"
  using assms
  by (cases st)
    (auto simp: run_task_def cancel_pending_def nth_list_update
      split: task.splits prod.splits sum.splits)

lemma fold_run_task_settles:
  assumes "j < length (fst st)" and "j \<in> set xs \<or> (\<forall>alert. fst st ! j \<noteq> Pending alert)"
  shows "\<forall>alert. fst (fold (run_task E) xs st) ! j \<noteq> Pending alert"
  using assms
proof (induction xs arbitrary: st)
  case Nil
  then show ?case by simp
next
  case (Cons i xs)
  have len: "j < length (fst (run_task E i st))"
    using Cons.prems(1) by (simp add: run_task_length)
  show ?case
  proof (cases "j = i \<or> (\<forall>alert. fst st ! j \<noteq> Pending alert)")
    case True
    with Cons.prems(1) have "\<forall>alert. fst (run_task E i st) ! j \<noteq> Pending alert"
      by (rule run_task_settles)
    with Cons.IH [OF len] show ?thesis by simp
  next
    case False
    with Cons.prems(2) have "j \<in> set xs" by auto
    with Cons.IH [OF len] show ?thesis by simp
  qed
qed

text \<open>A task is cancelled only when a task has failed.\<close>

lemma task_errors_Nil: "task_errors tasks = [] \<longleftrightarrow> (\<forall>e. Failed e \<notin> set tasks)"
  by (induction tasks rule: task_errors.induct) auto

lemma run_task_cancelled:
  assumes "Cancelled \<in> set (fst st) \<longrightarrow> (\<exists>e. Failed e \<in> set (fst st))"
    and "Cancelled \<in> set (fst (run_task E i st))"
  shows "\<exists>e. Failed e \<in> set (fst (run_task E i st))"
proof (cases st)
  case (Pair tasks d)
  show ?thesis
  proof (cases "i < length tasks")
    case False
    with Pair assms show ?thesis by (simp add: run_task_def)
  next
    case True
    show ?thesis
    proof (cases "tasks ! i")
      case (Pending alert)
      obtain r d' where ins: "insert_pydantic_model (insert_alert E) d alert = (r, d')"
        by (cases "insert_pydantic_model (insert_alert E) d alert")
      show ?thesis
      proof (cases r)
        case (Inl e)
        have "Failed e \<in> set (tasks[i := Failed e])"
          using True by (simp add: set_update_memI)
        then have "cancel_pending (Failed e) \<in> cancel_pending ` set (tasks[i := Failed e])"
          by (rule imageI)
        then have "Failed e \<in> set (map cancel_pending (tasks[i := Failed e]))"
          by (simp add: cancel_pending_def)
        with Pair True Pending ins Inl show ?thesis
          by (auto simp: run_task_def)
      next
        case (Inr x)
        with Pair True Pending ins have eq: "fst (run_task E i st) = tasks[i := Done x]"
          by (simp add: run_task_def)
        with assms(2) have "Cancelled \<in> set tasks"
          by (auto dest!: set_update_subset_insert [THEN subsetD])
        with assms(1) Pair obtain e where e: "Failed e \<in> set tasks"
          by auto
        then obtain k where k: "k < length tasks" "tasks ! k = Failed e"
          by (auto simp: in_set_conv_nth)
        with Pending have "k \<noteq> i" by auto
        with k have "(tasks[i := Done x]) ! k = Failed e" "k < length (tasks[i := Done x])"
          by simp_all
        then have "Failed e \<in> set (tasks[i := Done x])"
          by (metis nth_mem)
        with eq show ?thesis by auto
      qed
    qed (use Pair True assms in \<open>auto simp: run_task_def\<close>)
  qed
qed

lemma fold_run_task_cancelled:
  assumes "Cancelled \<in> set (fst st) \<longrightarrow> (\<exists>e. Failed e \<in> set (fst st))"
  shows "Cancelled \<in> set (fst (fold (run_task E) xs st)) \<longrightarrow>
         (\<exists>e. Failed e \<in> set (fst (fold (run_task E) xs st)))"
  using assms
proof (induction xs arbitrary: st)
  case Nil
  then show ?case by simp
next
  case (Cons i xs)
  have "Cancelled \<in> set (fst (run_task E i st)) \<longrightarrow> (\<exists>e. Failed e \<in> set (fst (run_task E i st)))"
    using run_task_cancelled [OF Cons.prems] by blast
  from Cons.IH [OF this] show ?case by simp
qed

text \<open>When no task has failed, every task of the group is done.\<close>

lemma task_group_Done:
  assumes "task_errors (fst (task_group E sched alerts d)) = []"
  shows "\<exists>results. fst (task_group E sched alerts d) = map Done results \<and>
           length results = length alerts"
proof -
  let ?tasks = "fst (task_group E sched alerts d)"
  have len: "length ?tasks = length alerts"
    by (simp add: task_group_def fold_run_task_length)
  have np: "\<forall>alert. ?tasks ! j \<noteq> Pending alert" if "j < length alerts" for j
    unfolding task_group_def
    by (rule fold_run_task_settles) (use that in auto)
  from assms have nf: "\<forall>e. Failed e \<notin> set ?tasks"
    by (simp add: task_errors_Nil)
  have "Cancelled \<in> set ?tasks \<longrightarrow> (\<exists>e. Failed e \<in> set ?tasks)"
    unfolding task_group_def by (rule fold_run_task_cancelled) auto
  with nf have nc: "Cancelled \<notin> set ?tasks"
    by blast
  have all: "\<exists>r. ?tasks ! j = Done r" if j: "j < length ?tasks" for j
  proof (cases "?tasks ! j")
    case (Pending alert)
    with np [of j] j len show ?thesis by simp
  next
    case (Failed e)
    with nf j show ?thesis by (metis nth_mem)
  next
    case Cancelled
    with nc j show ?thesis by (metis nth_mem)
  qed simp
  then have all': "\<forall>j<length ?tasks. \<exists>r. ?tasks ! j = Done r"
    by blast
  define results where
    "results = map (\<lambda>t. case t of Done r \<Rightarrow> r | _ \<Rightarrow> None) ?tasks"
  have "?tasks = map Done results"
    unfolding results_def
    by (rule nth_equalityI) (use all' in \<open>auto split: task.splits\<close>)
  with len show ?thesis
    by (metis length_map)
qed

lemma task_errors_Done: "task_errors (map Done results) = []"
  by (induction results) simp_all

lemma notify_loop_Done:
  "notify_loop alert (map Done results) recorded q =
     (Inr (recorded @ results),
      q @ replicate (length (filter is_critical results))
            (''New alert detected: '' @ a_timestamp alert))"
  by (induction results arbitrary: recorded q)
    (simp_all add: task_result_def replicate_app_Cons_same)

text \<open>
  What \<open>record_alerts\<close> does on a non-empty list: it raises the \<open>ExceptionGroup\<close> of the
  failed tasks and pushes nothing, or no task has failed and it returns the results in
  the order of the list, having pushed one notification, with the timestamp of the last
  alert of the list, for each result that is a stored row of category \<open>critical\<close>.
\<close>

lemma record_alerts_raises:
  assumes "alerts \<noteq> []" and "task_errors (fst (task_group E sched alerts d)) \<noteq> []"
  shows "record_alerts E sched d q alerts =
     (Inl (ExceptionGroup (task_errors (fst (task_group E sched alerts d)))),
      snd (task_group E sched alerts d), q)"
  using assms
  by (cases "task_group E sched alerts d")
    (auto simp: record_alerts_def split: list.splits)

lemma record_alerts_result:
  assumes "alerts \<noteq> []" and "task_errors (fst (task_group E sched alerts d)) = []"
  shows "\<exists>results d'.
           task_group E sched alerts d = (map Done results, d') \<and>
           length results = length alerts \<and>
           record_alerts E sched d q alerts =
             (Inr (Some results), d',
              q @ replicate (length (filter is_critical results))
                    (''New alert detected: '' @ a_timestamp (last alerts)))"
proof -
  obtain tasks d' where tg: "task_group E sched alerts d = (tasks, d')"
    by (cases "task_group E sched alerts d")
  with task_group_Done [OF assms(2)] obtain results
    where r: "tasks = map Done results" "length results = length alerts"
    by auto
  with assms tg show ?thesis
    by (auto simp: record_alerts_def notify_loop_Done task_errors_Done)
qed

text \<open>A failure inside the \<open>try\<close> of the insert fails no task.\<close>

lemma run_task_no_failure:
  assumes "\<And>d alert. fst (insert_alert E d alert) \<noteq> ConnectionRaised"
    and "\<forall>e. Failed e \<notin> set (fst st)"
  shows "\<forall>e. Failed e \<notin> set (fst (run_task E i st))"
proof (cases st)
  case (Pair tasks d)
  have ok: "\<exists>r. fst (insert_pydantic_model (insert_alert E) d alert) = Inr r" for alert
    using assms(1) [of d alert]
    by (cases "insert_alert E d alert"; cases "fst (insert_alert E d alert)")
      (auto simp: insert_pydantic_model_def)
  show ?thesis
  proof (cases "i < length tasks")
    case False
    with Pair assms(2) show ?thesis by (simp add: run_task_def)
  next
    case True
    show ?thesis
    proof (cases "tasks ! i")
      case (Pending alert)
      from ok [of alert] obtain r d' where
        "insert_pydantic_model (insert_alert E) d alert = (Inr r, d')"
        by (cases "insert_pydantic_model (insert_alert E) d alert") auto
      with Pair True Pending have "fst (run_task E i st) = tasks[i := Done r]"
        by (simp add: run_task_def)
      with assms(2) Pair show ?thesis
        by (auto dest!: set_update_subset_insert [THEN subsetD])
    qed (use Pair True assms(2) in \<open>auto simp: run_task_def\<close>)
  qed
qed

lemma task_group_no_failure:
  assumes "\<And>d alert. fst (insert_alert E d alert) \<noteq> ConnectionRaised"
  shows "task_errors (fst (task_group E sched alerts d)) = []"
proof -
  have "\<forall>e. Failed e \<notin> set (fst (fold (run_task E) xs st))"
    if "\<forall>e. Failed e \<notin> set (fst st)" for xs st
    using that
  proof (induction xs arbitrary: st)
    case Nil
    then show ?case by simp
  next
    case (Cons i xs)
    from run_task_no_failure [OF assms Cons.prems] Cons.IH show ?case by simp
  qed
  from this [where st = "(map Pending alerts, d)" and xs = "sched @ [0..<length alerts]"]
  show ?thesis
    by (auto simp: task_errors_Nil task_group_def)
qed

subsection \<open>Outputs\<close>

lemma append_outputs_map:
  "append_outputs full_outputs outputs = full_outputs @ map o_output outputs"
  by (induction outputs arbitrary: full_outputs) simp_all

lemma record_outputs_insert:
  "record_outputs E d (first_output # rest) =
     insert_pydantic_model (insert_output E) d
       (coalesced_output E first_output (first_output # rest))"
  by (simp add: record_outputs_def append_outputs_map coalesced_output_def)

text \<open>
  C6, as the code has it. For the empty list of fragments \<open>record_outputs\<close> returns
  \<open>None\<close> and leaves the database as it is. For a non-empty list it runs the \<open>INSERT\<close> of
  the database once, on the row whose id, prompt id and timestamp are those of the first
  fragment and whose payload is \<open>json.dumps\<close> of the list of all the fragments'
  payloads in arrival order: the database is left as that statement leaves it, and the
  result is the stored row the statement returns, \<open>None\<close> when it fails inside the \<open>try\<close>
  or returns no row, and an exception when the connection fails. On the in-memory
  database, whose table rejects a second row of the same id, exactly that one row is
  added when the id is new, and nothing is stored when it is not.
\<close>

theorem record_outputs_one_insert:
  "record_outputs E d [] = (Inr None, d) \<and>
   snd (record_outputs E d (first_output # rest)) =
     snd (insert_output E d (coalesced_output E first_output (first_output # rest))) \<and>
   fst (record_outputs E d (first_output # rest)) =
     (case fst (insert_output E d (coalesced_output E first_output (first_output # rest))) of
        ConnectionRaised \<Rightarrow> Inl SQLAlchemyError
      | Raised \<Rightarrow> Inr None
      | NoRow \<Rightarrow> Inr None
      | Row r \<Rightarrow> Inr (Some r)) \<and>
   (o_id first_output \<notin> set (map o_id (db_outputs m)) \<longrightarrow>
      record_outputs sample_deps m (first_output # rest) =
        (Inr (Some (coalesced_output sample_deps first_output (first_output # rest))),
         m\<lparr>db_outputs :=
             db_outputs m @ [coalesced_output sample_deps first_output (first_output # rest)]\<rparr>)) \<and>
   (o_id first_output \<in> set (map o_id (db_outputs m)) \<longrightarrow>
      record_outputs sample_deps m (first_output # rest) = (Inr None, m))"
proof (intro conjI impI)
  show "record_outputs E d [] = (Inr None, d)"
    by (simp add: record_outputs_def)
next
  let ?row = "coalesced_output E first_output (first_output # rest)"
  obtain r d' where i: "insert_output E d ?row = (r, d')"
    by (cases "insert_output E d ?row")
  then show "snd (record_outputs E d (first_output # rest)) = snd (insert_output E d ?row)"
    by (cases r) (simp_all add: record_outputs_insert insert_pydantic_model_def)
  from i show "fst (record_outputs E d (first_output # rest)) =
     (case fst (insert_output E d ?row) of
        ConnectionRaised \<Rightarrow> Inl SQLAlchemyError
      | Raised \<Rightarrow> Inr None
      | NoRow \<Rightarrow> Inr None
      | Row r \<Rightarrow> Inr (Some r))"
    by (cases r) (simp_all add: record_outputs_insert insert_pydantic_model_def)
next
  assume "o_id first_output \<notin> set (map o_id (db_outputs m))"
  then show "record_outputs sample_deps m (first_output # rest) =
        (Inr (Some (coalesced_output sample_deps first_output (first_output # rest))),
         m\<lparr>db_outputs :=
             db_outputs m @ [coalesced_output sample_deps first_output (first_output # rest)]\<rparr>)"
    unfolding record_outputs_insert
    by (simp add: insert_pydantic_model_def sample_deps_def coalesced_output_def)
next
  assume "o_id first_output \<in> set (map o_id (db_outputs m))"
  then show "record_outputs sample_deps m (first_output # rest) = (Inr None, m)"
    unfolding record_outputs_insert
    by (simp add: insert_pydantic_model_def sample_deps_def coalesced_output_def)
qed

theorem record_outputs_one_insert_witness:
  \<open>o_id (sample_output ''1'' ''t1'' ''a'') \<notin> set (map o_id (db_outputs empty_db)) \<and>
   record_outputs sample_deps empty_db
     [sample_output ''1'' ''t1'' ''a'', sample_output ''1'' ''t2'' ''b''] =
   (Inr (Some \<lparr>o_id = ''1'', o_prompt_id = ''p1'', o_timestamp = ''t1'',
               o_output = ''["a", "b"]''\<rparr>),
    \<lparr>db_prompts = [],
     db_outputs = [\<lparr>o_id = ''1'', o_prompt_id = ''p1'', o_timestamp = ''t1'',
                    o_output = ''["a", "b"]''\<rparr>],
     db_alerts = []\<rparr>)\<close>
proof -
  have 1: "o_id (sample_output ''1'' ''t1'' ''a'') \<notin> set (map o_id (db_outputs empty_db))"
    by (simp add: empty_db_def)
  have 2: "coalesced_output sample_deps (sample_output ''1'' ''t1'' ''a'')
        [sample_output ''1'' ''t1'' ''a'', sample_output ''1'' ''t2'' ''b''] =
      \<lparr>o_id = ''1'', o_prompt_id = ''p1'', o_timestamp = ''t1'',
       o_output = [CHR ''['', CHR 0x22, CHR ''a'', CHR 0x22, CHR '','', CHR '' '',
                   CHR 0x22, CHR ''b'', CHR 0x22, CHR '']'']\<rparr>"
    by (simp add: coalesced_output_def sample_deps_def sample_output_def sample_quote_def)
  have 3: "record_outputs sample_deps empty_db
     [sample_output ''1'' ''t1'' ''a'', sample_output ''1'' ''t2'' ''b''] =
    (Inr (Some (coalesced_output sample_deps (sample_output ''1'' ''t1'' ''a'')
        [sample_output ''1'' ''t1'' ''a'', sample_output ''1'' ''t2'' ''b''])),
     empty_db\<lparr>db_outputs := db_outputs empty_db @
        [coalesced_output sample_deps (sample_output ''1'' ''t1'' ''a'')
        [sample_output ''1'' ''t1'' ''a'', sample_output ''1'' ''t2'' ''b'']]\<rparr>)"
    by (rule record_outputs_one_insert
        [where m = empty_db and first_output = "sample_output ''1'' ''t1'' ''a''"
           and rest = "[sample_output ''1'' ''t2'' ''b'']",
         THEN conjunct2, THEN conjunct2, THEN conjunct2, THEN conjunct1, THEN mp, OF 1])
  have 4: "empty_db\<lparr>db_outputs := db_outputs empty_db @ [x]\<rparr> =
      \<lparr>db_prompts = [], db_outputs = [x], db_alerts = []\<rparr>" for x
    by (simp add: empty_db_def)
  from 1 3 show ?thesis
    unfolding 2 4 by (rule conjI)
qed

text \<open>
  C6 as claimed fails: for the non-empty list of the fragments \<open>a\<close> and \<open>b\<close> of id
  \<open>1\<close>, on a database that already holds an output of that id, the insert fails, no row is
  persisted and \<open>None\<close> is returned.
\<close>

theorem record_outputs_none_persisted_counterexample:
  "record_outputs sample_deps
     \<lparr>db_prompts = [], db_outputs = [sample_output ''1'' ''t0'' ''x''], db_alerts = []\<rparr>
     [sample_output ''1'' ''t1'' ''a'', sample_output ''1'' ''t2'' ''b''] =
   (Inr None,
    \<lparr>db_prompts = [], db_outputs = [sample_output ''1'' ''t0'' ''x''], db_alerts = []\<rparr>)"
  by (simp add: record_outputs_def insert_pydantic_model_def sample_deps_def sample_output_def)

subsection \<open>Alerts\<close>

text \<open>
  A failure inside the \<open>try\<close> leaves the other results as they are: with two alerts of
  the same id the first insert to run stores its row, the other gives \<open>None\<close>, and the
  third alert is stored and notified all the same.
\<close>

lemma record_alerts_failure_sample:
  "record_alerts sample_deps [1] empty_db []
     [sample_alert ''1'' ''critical'' ''t1'', sample_alert ''1'' ''critical'' ''t2'',
      sample_alert ''3'' ''critical'' ''t3''] =
     (Inr (Some [None,
                 Some (sample_alert ''1'' ''critical'' ''t2''),
                 Some (sample_alert ''3'' ''critical'' ''t3'')]),
      \<lparr>db_prompts = [], db_outputs = [],
        db_alerts = [sample_alert ''1'' ''critical'' ''t2'',
                     sample_alert ''3'' ''critical'' ''t3'']\<rparr>,
      [''New alert detected: t3'', ''New alert detected: t3''])"
  by (simp add: record_alerts_def task_group_def run_task_def insert_pydantic_model_def
      sample_deps_def sample_alert_def empty_db_def task_result_def is_critical_def)

text \<open>
  C4. The claim is that one insert's failure neither cancels nor fails its siblings, and
  that the queue receives one notification per stored critical alert, in submission
  order: for \<open>[A(critical), B(info), C(critical)]\<close> two notifications, A's before C's. The
  code does neither. When the connection of the first alert's insert cannot be opened,
  the exception leaves \<open>_insert_pydantic_model\<close>, the task group cancels the second
  insert, which would have stored its critical alert, and \<open>record_alerts\<close> raises the
  \<open>ExceptionGroup\<close>: nothing is stored and nothing is pushed. And on the claim's own
  example, all three inserts succeeding, with B's completing first, the queue receives
  C's timestamp twice and A's never.
\<close>

theorem record_alerts_failure_cancels_siblings:
  "record_alerts flaky_deps [] (1, empty_db) []
     [sample_alert ''1'' ''critical'' ''t1'', sample_alert ''2'' ''critical'' ''t2''] =
     (Inl (ExceptionGroup [SQLAlchemyError]), (0, empty_db), []) \<and>
   task_group flaky_deps [] [sample_alert ''1'' ''critical'' ''t1'',
                             sample_alert ''2'' ''critical'' ''t2''] (1, empty_db) =
     ([Failed SQLAlchemyError, Cancelled], (0, empty_db)) \<and>
   record_alerts flaky_deps [] (0, empty_db) []
     [sample_alert ''2'' ''critical'' ''t2''] =
     (Inr (Some [Some (sample_alert ''2'' ''critical'' ''t2'')]),
      (0, \<lparr>db_prompts = [], db_outputs = [],
           db_alerts = [sample_alert ''2'' ''critical'' ''t2'']\<rparr>),
      [''New alert detected: t2'']) \<and>
   record_alerts sample_deps [1] empty_db []
     [sample_alert ''1'' ''critical'' ''t1'', sample_alert ''2'' ''info'' ''t2'',
      sample_alert ''3'' ''critical'' ''t3''] =
     (Inr (Some [Some (sample_alert ''1'' ''critical'' ''t1''),
                 Some (sample_alert ''2'' ''info'' ''t2''),
                 Some (sample_alert ''3'' ''critical'' ''t3'')]),
      \<lparr>db_prompts = [], db_outputs = [],
        db_alerts = [sample_alert ''2'' ''info'' ''t2'', sample_alert ''1'' ''critical'' ''t1'',
                     sample_alert ''3'' ''critical'' ''t3'']\<rparr>,
      [''New alert detected: t3'', ''New alert detected: t3''])"
proof -
  have tg: "task_group flaky_deps [] [sample_alert ''1'' ''critical'' ''t1'',
                             sample_alert ''2'' ''critical'' ''t2''] (1, empty_db) =
     ([Failed SQLAlchemyError, Cancelled], (0, empty_db))"
    by (simp add: task_group_def run_task_def insert_pydantic_model_def flaky_deps_def
        cancel_pending_def)
  have 1: "record_alerts flaky_deps [] (1, empty_db) []
     [sample_alert ''1'' ''critical'' ''t1'', sample_alert ''2'' ''critical'' ''t2''] =
     (Inl (ExceptionGroup [SQLAlchemyError]), (0, empty_db), [])"
    unfolding record_alerts_def tg by simp
  have 2: "record_alerts flaky_deps [] (0, empty_db) []
     [sample_alert ''2'' ''critical'' ''t2''] =
     (Inr (Some [Some (sample_alert ''2'' ''critical'' ''t2'')]),
      (0, \<lparr>db_prompts = [], db_outputs = [],
           db_alerts = [sample_alert ''2'' ''critical'' ''t2'']\<rparr>),
      [''New alert detected: t2''])"
    by (simp add: record_alerts_def task_group_def run_task_def insert_pydantic_model_def
        flaky_deps_def sample_deps_def sample_alert_def empty_db_def task_result_def
        is_critical_def)
  have 3: "record_alerts sample_deps [1] empty_db []
     [sample_alert ''1'' ''critical'' ''t1'', sample_alert ''2'' ''info'' ''t2'',
      sample_alert ''3'' ''critical'' ''t3''] =
     (Inr (Some [Some (sample_alert ''1'' ''critical'' ''t1''),
                 Some (sample_alert ''2'' ''info'' ''t2''),
                 Some (sample_alert ''3'' ''critical'' ''t3'')]),
      \<lparr>db_prompts = [], db_outputs = [],
        db_alerts = [sample_alert ''2'' ''info'' ''t2'', sample_alert ''1'' ''critical'' ''t1'',
                     sample_alert ''3'' ''critical'' ''t3'']\<rparr>,
      [''New alert detected: t3'', ''New alert detected: t3''])"
    by (simp add: record_alerts_def task_group_def run_task_def insert_pydantic_model_def
        sample_deps_def sample_alert_def empty_db_def task_result_def is_critical_def)
  from 1 tg 2 3 show ?thesis
    by (intro conjI)
qed

text \<open>
  C2. The claim is that a notification carries the timestamp of the recorded alert that
  triggered it. The code pushes \<open>alert.timestamp\<close>, where \<open>alert\<close> is the variable left by
  the first loop, the last alert of the list: for a critical alert of timestamp
  \<open>2025-01-01T10:00:00\<close> followed by an info alert of timestamp \<open>2025-01-01T10:00:07\<close>,
  both stored, the one notification carries \<open>2025-01-01T10:00:07\<close>.
\<close>

theorem record_alerts_pushes_last_timestamp:
  "record_alerts sample_deps [] empty_db []
     [sample_alert ''a1'' ''critical'' ''2025-01-01T10:00:00'',
      sample_alert ''a2'' ''info'' ''2025-01-01T10:00:07''] =
     (Inr (Some [Some (sample_alert ''a1'' ''critical'' ''2025-01-01T10:00:00''),
                 Some (sample_alert ''a2'' ''info'' ''2025-01-01T10:00:07'')]),
      \<lparr>db_prompts = [], db_outputs = [],
        db_alerts = [sample_alert ''a1'' ''critical'' ''2025-01-01T10:00:00'',
                     sample_alert ''a2'' ''info'' ''2025-01-01T10:00:07'']\<rparr>,
      [''New alert detected: 2025-01-01T10:00:07''])"
  by (simp add: record_alerts_def task_group_def run_task_def insert_pydantic_model_def
      sample_deps_def sample_alert_def empty_db_def task_result_def is_critical_def)

subsection \<open>The context\<close>










text \<open>
  C7. For a context with an input request and no flag set: when the request type is not
  \<open>fim\<close>, the eligibility check returns true and does not consult the cache, whatever
  the cache and its decision function are; when the type is \<open>fim\<close> and the cache rejects
  the request, \<open>record_context\<close> leaves the database and the queue as they were (no prompt,
  output or alert is inserted) and the context unmarked.
\<close>

theorem fim_gate:
  "(input_request c = Some request \<and>
    \<not> truthy (case map_of (metadata c) ''stored_in_db'' of Some v \<Rightarrow> v | None \<Rightarrow> JBool False) \<and>
    p_type request \<noteq> ''fim'' \<longrightarrow>
      should_record_context E cache (Some c) = (True, cache)) \<and>
   (input_request c = Some request \<and>
    \<not> truthy (case map_of (metadata c) ''stored_in_db'' of Some v \<Rightarrow> v | None \<Rightarrow> JBool False) \<and>
    p_type request = ''fim'' \<and>
    could_store_fim_request E (fim_cache w) c = (False, cache') \<longrightarrow>
      record_context E sched w (Some c) = (w\<lparr>fim_cache := cache'\<rparr>, Some c) \<and>
      db (fst (record_context E sched w (Some c))) = db w \<and>
      alert_queue (fst (record_context E sched w (Some c))) = alert_queue w)"
  by (auto simp: should_record_context_def record_context_def)

theorem fim_gate_witness:
  "should_record_context sample_deps [''def f(''] (Some (sample_context ''chat'')) =
     (True, [''def f('']) \<and>
   could_store_fim_request sample_deps (fim_cache (sample_world [''def f(''])) (sample_context ''fim'') =
     (False, [''def f('', ''def f('']) \<and>
   record_context sample_deps [] (sample_world [''def f('']) (Some (sample_context ''fim'')) =
     ((sample_world [''def f(''])\<lparr>fim_cache := [''def f('', ''def f('']\<rparr>,
      Some (sample_context ''fim'')) \<and>
   db (fst (record_context sample_deps [] (sample_world [''def f(''])
              (Some (sample_context ''fim'')))) = empty_db"
proof -
  have 1: "input_request (sample_context ''chat'') = Some (sample_prompt ''chat'' ''def f('') \<and>
    \<not> truthy (case map_of (metadata (sample_context ''chat'')) ''stored_in_db'' of
                Some v \<Rightarrow> v | None \<Rightarrow> JBool False) \<and>
    p_type (sample_prompt ''chat'' ''def f('') \<noteq> ''fim''"
    by (simp add: sample_context_def sample_prompt_def)
  have 2: "input_request (sample_context ''fim'') = Some (sample_prompt ''fim'' ''def f('') \<and>
    \<not> truthy (case map_of (metadata (sample_context ''fim'')) ''stored_in_db'' of
                Some v \<Rightarrow> v | None \<Rightarrow> JBool False) \<and>
    p_type (sample_prompt ''fim'' ''def f('') = ''fim'' \<and>
    could_store_fim_request sample_deps (fim_cache (sample_world [''def f('']))
      (sample_context ''fim'') = (False, [''def f('', ''def f(''])"
    by (simp add: sample_context_def sample_prompt_def sample_deps_def sample_world_def)
  from fim_gate [of "sample_context ''chat''" "sample_prompt ''chat'' ''def f(''" sample_deps
      "[''def f('']"] 1
  have a: "should_record_context sample_deps [''def f(''] (Some (sample_context ''chat'')) =
     (True, [''def f(''])"
    by blast
  from fim_gate [of "sample_context ''fim''" "sample_prompt ''fim'' ''def f(''" sample_deps _
      "sample_world [''def f('']" "[''def f('', ''def f('']" "[]"] 2
  have b: "record_context sample_deps [] (sample_world [''def f('']) (Some (sample_context ''fim'')) =
     ((sample_world [''def f(''])\<lparr>fim_cache := [''def f('', ''def f('']\<rparr>,
      Some (sample_context ''fim''))"
    by blast
  from a b 2 show ?thesis
    by (simp add: sample_world_def)
qed

end
